theory Spec2Isabelle
  imports Main "HOL-Library.Sublist"
begin

section \<open>Strings of the platform\<close>

text \<open>
  A JavaScript string is modelled as a \<^typ>\<open>string\<close>; the line feed is the character
  with code 10. The three string operations that the stream splitter of
  \<^verbatim>\<open>src/client.ts\<close> calls are \<^verbatim>\<open>indexOf\<close>, \<^verbatim>\<open>split\<close> and \<^verbatim>\<open>join\<close>;
  \<^verbatim>\<open>substring(0, i)\<close> is \<^const>\<open>take\<close> and \<^verbatim>\<open>substring(i)\<close> is \<^const>\<open>drop\<close>.
\<close>

abbreviation LF :: char where
  "LF \<equiv> CHR 0x0A"

text \<open>The separator \<^verbatim>\<open>"\n\n"\<close> and the delimiter \<^verbatim>\<open>"\n\n{"\<close>.\<close>

definition blank_line :: string where
  "blank_line = [LF, LF]"

definition delimiter :: string where
  "delimiter = [LF, LF, CHR ''{'']"

text \<open>\<^verbatim>\<open>s.indexOf(pat)\<close>: the first position where \<open>pat\<close> occurs, \<open>None\<close> for \<open>-1\<close>.\<close>

fun indexOf :: "string \<Rightarrow> string \<Rightarrow> nat option" where
  "indexOf [] pat = (if pat = [] then Some 0 else None)"
| "indexOf (c # cs) pat =
     (if prefix pat (c # cs) then Some 0 else map_option Suc (indexOf cs pat))"

lemma indexOf_bound:
  "indexOf s pat = Some i \<Longrightarrow> i + length pat \<le> length s"
proof (induction s arbitrary: i)
  case Nil
  then show ?case by (simp split: if_splits)
next
  case (Cons c cs)
  show ?case
  proof (cases "prefix pat (c # cs)")
    case True
    with Cons.prems prefix_length_le [of pat "c # cs"] show ?thesis by simp
  next
    case False
    with Cons.prems obtain j where "indexOf cs pat = Some j" "i = Suc j"
      by auto
    with Cons.IH show ?thesis by fastforce
  qed
qed

text \<open>
  \<^verbatim>\<open>s.split(sep)\<close>: the pieces between the non-overlapping occurrences of \<open>sep\<close>,
  found left to right; with an empty separator, the characters of \<open>s\<close>.
\<close>

function split :: "string \<Rightarrow> string \<Rightarrow> string list" where
  "split s sep =
     (if sep = [] then map (\<lambda>c. [c]) s
      else case indexOf s sep of
             None \<Rightarrow> [s]
           | Some i \<Rightarrow> take i s # split (drop (i + length sep) s) sep)"
  by pat_completeness auto
termination
proof (relation "measure (\<lambda>(s, sep). length s)")
  show "wf (measure (\<lambda>(s, sep). length s))" by simp
next
  fix s sep :: string and i :: nat
  assume "sep \<noteq> []" and "indexOf s sep = Some i"
  then have "i + length sep \<le> length s" and "0 < length sep"
    by (simp_all add: indexOf_bound)
  then have "length s - (i + length sep) < length s"
    by linarith
  then show "((drop (i + length sep) s, sep), (s, sep)) \<in> measure (\<lambda>(s, sep). length s)"
    by simp
qed

declare split.simps [simp del]

text \<open>\<^verbatim>\<open>xs.join(sep)\<close>.\<close>

fun join :: "string list \<Rightarrow> string \<Rightarrow> string" where
  "join [] sep = []"
| "join [x] sep = x"
| "join (x # y # ys) sep = x @ sep @ join (y # ys) sep"

section \<open>The stream splitter of \<^verbatim>\<open>answerStream\<close>\<close>

text \<open>
  The local variables of the loop are \<^verbatim>\<open>buffer\<close> and \<^verbatim>\<open>accumulatedText\<close>;
  \<^verbatim>\<open>answerStream\<close> has \<^verbatim>\<open>metadata\<close> as well (\<open>None\<close> is \<^verbatim>\<open>null\<close>). The calls of the
  callback are recorded in \<open>onChunk\<close>, oldest first: each entry is the argument of one
  call. \<^verbatim>\<open>JSON.parse\<close> is a parameter of the model, \<open>None\<close> when it throws. The reader
  is the list of the strings that \<^verbatim>\<open>decoder.decode(value, {stream: true})\<close> returns,
  one for each read that is not \<^verbatim>\<open>done\<close>; for a stream of ASCII characters these are
  the chunks of bytes themselves. A read that rejects and a callback that throws are not
  modelled.
\<close>

record splitter =
  buffer :: string
  accumulatedText :: string

record 'm stream_state = splitter +
  metadata :: "'m option"
  onChunk :: "string list"

datatype 'a flow = Continue 'a | Break 'a

text \<open>\<^verbatim>\<open>accumulatedText += t; onChunk(accumulatedText);\<close>\<close>

definition emitText :: "string \<Rightarrow> 'm stream_state \<Rightarrow> 'm stream_state" where
  "emitText t s =
     s\<lparr>accumulatedText := accumulatedText s @ t,
       onChunk := onChunk s @ [accumulatedText s @ t]\<rparr>"

text \<open>One iteration of the \<^verbatim>\<open>while (true)\<close> loop after a read that is not \<^verbatim>\<open>done\<close>.\<close>

definition answerStream_read ::
  "(string \<Rightarrow> 'm option) \<Rightarrow> string \<Rightarrow> 'm stream_state \<Rightarrow> 'm stream_state flow" where
  "answerStream_read JSON_parse decoded s =
     (let s0 = s\<lparr>buffer := buffer s @ decoded\<rparr> in
      case indexOf (buffer s0) delimiter of
        Some metadataIndex \<Rightarrow>
          let textContent = take metadataIndex (buffer s0);
              s1 = (if textContent \<noteq> [] then emitText textContent s0 else s0);
              metadataStr = drop (metadataIndex + 2) (buffer s0)
          in (case JSON_parse metadataStr of
                None \<Rightarrow> Continue s1
              | Some m \<Rightarrow> Break (s1\<lparr>metadata := Some m, buffer := []\<rparr>))
      | None \<Rightarrow> Continue ((emitText (buffer s0) s0)\<lparr>buffer := []\<rparr>))"

text \<open>The loop: it ends when the reader is \<^verbatim>\<open>done\<close> or at \<^verbatim>\<open>break\<close>.\<close>

fun answerStream_loop ::
  "(string \<Rightarrow> 'm option) \<Rightarrow> string list \<Rightarrow> 'm stream_state \<Rightarrow> 'm stream_state" where
  "answerStream_loop JSON_parse [] s = s"
| "answerStream_loop JSON_parse (decoded # reads) s =
     (case answerStream_read JSON_parse decoded s of
        Continue s' \<Rightarrow> answerStream_loop JSON_parse reads s'
      | Break s' \<Rightarrow> s')"

text \<open>The statements after the loop (\<^verbatim>\<open>if (buffer) { ... }\<close>).\<close>

definition answerStream_rest ::
  "(string \<Rightarrow> 'm option) \<Rightarrow> 'm stream_state \<Rightarrow> 'm stream_state" where
  "answerStream_rest JSON_parse s =
     (if buffer s \<noteq> [] then
        let lines = split (buffer s) blank_line in
        if length lines > 1 then
          let textPart = hd lines;
              metadataPart = join (drop 1 lines) blank_line;
              s1 = (if textPart \<noteq> [] then emitText textPart s else s)
          in if metadataPart \<noteq> [] then
               (case JSON_parse metadataPart of
                  Some m \<Rightarrow> s1\<lparr>metadata := Some m\<rparr>
                | None \<Rightarrow> emitText (blank_line @ metadataPart) s1)
             else s1
        else emitText (buffer s) s
      else s)"

definition stream_init :: "'m stream_state" where
  "stream_init = \<lparr>buffer = [], accumulatedText = [], metadata = None, onChunk = []\<rparr>"

text \<open>
  The body of \<^verbatim>\<open>answerStream\<close> from \<^verbatim>\<open>getReader\<close> on: the calls of the callback and
  the value returned.
\<close>

definition answerStream_body ::
  "(string \<Rightarrow> 'm option) \<Rightarrow> string list \<Rightarrow> string list \<times> 'm option" where
  "answerStream_body JSON_parse reads =
     (let s = answerStream_rest JSON_parse (answerStream_loop JSON_parse reads stream_init)
      in (onChunk s, metadata s))"

section \<open>The stream splitter of \<^verbatim>\<open>answerStreamGenerator\<close>\<close>

text \<open>
  The generator has \<^verbatim>\<open>buffer\<close> and \<^verbatim>\<open>accumulatedText\<close> only. What it yields is
  recorded in \<open>yields\<close>, oldest first, for a consumer that takes every value:
  \<open>Text t\<close> for \<^verbatim>\<open>yield accumulatedText\<close> and \<open>Metadata m\<close> for
  \<^verbatim>\<open>yield { metadata }\<close>.
\<close>

datatype 'm yielded = Text string | Metadata 'm

record 'm gen_state = splitter +
  yields :: "'m yielded list"

text \<open>\<^verbatim>\<open>accumulatedText += t; yield accumulatedText;\<close>\<close>

definition yieldText :: "string \<Rightarrow> 'm gen_state \<Rightarrow> 'm gen_state" where
  "yieldText t g =
     g\<lparr>accumulatedText := accumulatedText g @ t,
       yields := yields g @ [Text (accumulatedText g @ t)]\<rparr>"

definition answerStreamGenerator_read ::
  "(string \<Rightarrow> 'm option) \<Rightarrow> string \<Rightarrow> 'm gen_state \<Rightarrow> 'm gen_state flow" where
  "answerStreamGenerator_read JSON_parse decoded g =
     (let g0 = g\<lparr>buffer := buffer g @ decoded\<rparr> in
      case indexOf (buffer g0) delimiter of
        Some metadataIndex \<Rightarrow>
          let textContent = take metadataIndex (buffer g0);
              g1 = (if textContent \<noteq> [] then yieldText textContent g0 else g0);
              metadataStr = drop (metadataIndex + 2) (buffer g0)
          in (case JSON_parse metadataStr of
                Some m \<Rightarrow> Break (g1\<lparr>yields := yields g1 @ [Metadata m], buffer := []\<rparr>)
              | None \<Rightarrow> Continue g1)
      | None \<Rightarrow> Continue ((yieldText (buffer g0) g0)\<lparr>buffer := []\<rparr>))"

fun answerStreamGenerator_loop ::
  "(string \<Rightarrow> 'm option) \<Rightarrow> string list \<Rightarrow> 'm gen_state \<Rightarrow> 'm gen_state" where
  "answerStreamGenerator_loop JSON_parse [] g = g"
| "answerStreamGenerator_loop JSON_parse (decoded # reads) g =
     (case answerStreamGenerator_read JSON_parse decoded g of
        Continue g' \<Rightarrow> answerStreamGenerator_loop JSON_parse reads g'
      | Break g' \<Rightarrow> g')"

definition answerStreamGenerator_rest ::
  "(string \<Rightarrow> 'm option) \<Rightarrow> 'm gen_state \<Rightarrow> 'm gen_state" where
  "answerStreamGenerator_rest JSON_parse g =
     (if buffer g \<noteq> [] then
        let lines = split (buffer g) blank_line in
        if length lines > 1 then
          let textPart = hd lines;
              metadataPart = join (drop 1 lines) blank_line;
              g1 = (if textPart \<noteq> [] then yieldText textPart g else g)
          in if metadataPart \<noteq> [] then
               (case JSON_parse metadataPart of
                  Some m \<Rightarrow> g1\<lparr>yields := yields g1 @ [Metadata m]\<rparr>
                | None \<Rightarrow> yieldText (blank_line @ metadataPart) g1)
             else g1
        else yieldText (buffer g) g
      else g)"

definition gen_init :: "'m gen_state" where
  "gen_init = \<lparr>buffer = [], accumulatedText = [], yields = []\<rparr>"

definition answerStreamGenerator_body ::
  "(string \<Rightarrow> 'm option) \<Rightarrow> string list \<Rightarrow> 'm yielded list" where
  "answerStreamGenerator_body JSON_parse reads =
     yields (answerStreamGenerator_rest JSON_parse
       (answerStreamGenerator_loop JSON_parse reads gen_init))"

text \<open>The strings and the metadata objects among the yielded values.\<close>

fun texts_of :: "'m yielded list \<Rightarrow> string list" where
  "texts_of [] = []"
| "texts_of (Text t # ys) = t # texts_of ys"
| "texts_of (Metadata m # ys) = texts_of ys"

fun metadata_of :: "'m yielded list \<Rightarrow> 'm list" where
  "metadata_of [] = []"
| "metadata_of (Text t # ys) = metadata_of ys"
| "metadata_of (Metadata m # ys) = m # metadata_of ys"

text \<open>An optional value as the list of its elements.\<close>

fun opt_list :: "'a option \<Rightarrow> 'a list" where
  "opt_list None = []"
| "opt_list (Some x) = [x]"

text \<open>
  The generator state that corresponds to a state of \<^verbatim>\<open>answerStream\<close>: each call of
  the callback is a yielded string, and a metadata object assigned is yielded last.
\<close>

definition gen_of :: "'m stream_state \<Rightarrow> 'm gen_state" where
  "gen_of s =
     \<lparr>buffer = buffer s, accumulatedText = accumulatedText s,
      yields = map Text (onChunk s) @ map Metadata (opt_list (metadata s))\<rparr>"

text \<open>
  The calls of the callback so far form a chain: each argument is a prefix of the later
  ones and of the accumulated text.
\<close>

definition chain :: "'m stream_state \<Rightarrow> bool" where
  "chain s =
     (sorted_wrt prefix (onChunk s) \<and>
      list_all (\<lambda>t. prefix t (accumulatedText s)) (onChunk s))"

section \<open>Errors (\<^verbatim>\<open>src/errors.ts\<close>)\<close>

text \<open>
  The parsed body of an error response, at its TypeScript type \<^verbatim>\<open>ErrorResponse\<close>; a
  property that is absent is \<open>None\<close>.
\<close>

record ErrorResponse =
  error :: "string option"
  message :: "string option"

text \<open>
  The values thrown: \<open>Error\<close> is the built-in class, the others are the classes of
  \<^verbatim>\<open>errors.ts\<close> with the arguments of their constructors.
\<close>

datatype thrown =
    Error string
  | ThredError string "nat option" "ErrorResponse option"
  | AuthenticationError string "ErrorResponse option"
  | ValidationError string "ErrorResponse option"
  | ServerError string "ErrorResponse option"
  | NetworkError string
  | TimeoutError string

text \<open>The property \<^verbatim>\<open>statusCode\<close> that each constructor passes to \<^verbatim>\<open>super\<close>.\<close>

fun statusCode :: "thrown \<Rightarrow> nat option" where
  "statusCode (Error msg) = None"
| "statusCode (ThredError msg code data) = code"
| "statusCode (AuthenticationError msg data) = Some 401"
| "statusCode (ValidationError msg data) = Some 400"
| "statusCode (ServerError msg data) = Some 500"
| "statusCode (NetworkError msg) = None"
| "statusCode (TimeoutError msg) = None"

fun response_of :: "thrown \<Rightarrow> ErrorResponse option" where
  "response_of (Error msg) = None"
| "response_of (ThredError msg code data) = data"
| "response_of (AuthenticationError msg data) = data"
| "response_of (ValidationError msg data) = data"
| "response_of (ServerError msg data) = data"
| "response_of (NetworkError msg) = None"
| "response_of (TimeoutError msg) = None"

fun message_of :: "thrown \<Rightarrow> string" where
  "message_of (Error msg) = msg"
| "message_of (ThredError msg code data) = msg"
| "message_of (AuthenticationError msg data) = msg"
| "message_of (ValidationError msg data) = msg"
| "message_of (ServerError msg data) = msg"
| "message_of (NetworkError msg) = msg"
| "message_of (TimeoutError msg) = msg"

text \<open>
  A response of \<^verbatim>\<open>fetch\<close>. \<open>content_type\<close> is \<^verbatim>\<open>headers.get('content-type')\<close>;
  \<open>json_error\<close> is what \<^verbatim>\<open>response.json()\<close> gives at the type \<^verbatim>\<open>ErrorResponse\<close>,
  \<open>None\<close> when it rejects; \<open>json_answer\<close> is what it gives at the type
  \<^verbatim>\<open>AnswerResponse\<close>; \<open>body\<close> is the body stream as the decoded strings of its reads,
  \<open>None\<close> for \<^verbatim>\<open>null\<close>.
\<close>

record 'a Response =
  ok :: bool
  status :: nat
  statusText :: string
  content_type :: "string option"
  json_error :: "ErrorResponse option"
  json_answer :: "thrown + 'a"
  body :: "string list option"

text \<open>\<^verbatim>\<open>s.includes(pat)\<close>\<close>

definition includes_str :: "string \<Rightarrow> string \<Rightarrow> bool" where
  "includes_str s pat = (indexOf s pat \<noteq> None)"

text \<open>The variable \<^verbatim>\<open>errorData\<close> of \<^verbatim>\<open>handleApiError\<close> after the \<^verbatim>\<open>try\<close> block.\<close>

definition errorData :: "'a Response \<Rightarrow> ErrorResponse option" where
  "errorData response =
     (case content_type response of
        None \<Rightarrow> None
      | Some contentType \<Rightarrow>
          if includes_str contentType ''application/json'' then json_error response else None)"

text \<open>A string operand of \<^verbatim>\<open>||\<close> is taken when it is present and not empty.\<close>

fun truthy :: "string option \<Rightarrow> bool" where
  "truthy None = False"
| "truthy (Some s) = (s \<noteq> [])"

text \<open>\<^verbatim>\<open>errorData?.message || errorData?.error || response.statusText\<close>\<close>

definition error_message :: "'a Response \<Rightarrow> string" where
  "error_message response =
     (case errorData response of
        None \<Rightarrow> statusText response
      | Some d \<Rightarrow>
          if truthy (ErrorResponse.message d) then the (ErrorResponse.message d)
          else if truthy (error d) then the (error d)
          else statusText response)"

text \<open>\<^verbatim>\<open>handleApiError\<close> always throws: the model returns the value thrown.\<close>

definition handleApiError :: "'a Response \<Rightarrow> thrown" where
  "handleApiError response =
     (if status response = 400 then ValidationError (error_message response) (errorData response)
      else if status response = 401 then
        AuthenticationError (error_message response) (errorData response)
      else if status response = 500 then ServerError (error_message response) (errorData response)
      else ThredError (error_message response) (Some (status response)) (errorData response))"

section \<open>The client (\<^verbatim>\<open>src/client.ts\<close>)\<close>

datatype model = gpt_4 | gpt_4_turbo | gpt_3_5_turbo

record ThredConfig =
  cfg_apiKey :: string
  cfg_defaultModel :: "model option"
  cfg_timeout :: "nat option"

record ThredClient =
  apiKey :: string
  baseUrl :: string
  defaultModel :: model
  timeout :: nat

text \<open>The constructor; \<^verbatim>\<open>||\<close> takes the default for an absent value and for \<open>0\<close>.\<close>

definition new_ThredClient :: "ThredConfig \<Rightarrow> thrown + ThredClient" where
  "new_ThredClient config =
     (if cfg_apiKey config = [] then Inl (Error ''API key is required'')
      else Inr \<lparr>apiKey = cfg_apiKey config,
                baseUrl = ''https://api.thred.dev/v1'',
                defaultModel = (case cfg_defaultModel config of Some m \<Rightarrow> m | None \<Rightarrow> gpt_4),
                timeout = (case cfg_timeout config of
                             None \<Rightarrow> 30000
                           | Some n \<Rightarrow> if n = 0 then 30000 else n)\<rparr>)"

definition getHeaders :: "ThredClient \<Rightarrow> (string \<times> string) list" where
  "getHeaders this =
     [(''Authorization'', ''Bearer '' @ apiKey this),
      (''Content-Type'', ''application/json'')]"

text \<open>
  The request payload; the optional properties other than \<^verbatim>\<open>model\<close> are carried in
  the extension of the record, which the spread \<^verbatim>\<open>{...request, model: ...}\<close> keeps.
\<close>

record AnswerRequest =
  message :: string
  model :: "model option"

record 'r RequestInit =
  http_method :: string
  headers :: "(string \<times> string) list"
  body_sent :: 'r

text \<open>
  What \<^verbatim>\<open>fetch\<close> can throw: an instance of \<^verbatim>\<open>Error\<close> with its name and message,
  or another value. The network is a parameter: for a URL and options it gives the
  response or the value thrown. The timer that aborts the request is part of it: a
  request aborted by the timer throws an error named \<^verbatim>\<open>AbortError\<close>.
\<close>

datatype fetch_failure = Error_instance string string | Not_an_Error

type_synonym ('r, 'a) fetch = "string \<Rightarrow> 'r RequestInit \<Rightarrow> fetch_failure + 'a Response"

text \<open>
  The decimal digits of a number, for the template literal of the timeout message. This
  is what the template literal prints for a whole number below \<open>10\<^sup>2\<^sup>1\<close>; from there on
  JavaScript prints the exponent form, which is not modelled.
\<close>

function decimal :: "nat \<Rightarrow> string" where
  "decimal n =
     (if n < 10 then [''0123456789'' ! n]
      else decimal (n div 10) @ [''0123456789'' ! (n mod 10)])"
  by pat_completeness auto
termination
  by (relation "measure id") auto

declare decimal.simps [simp del]

definition fetchWithTimeout ::
  "('r, 'a) fetch \<Rightarrow> string \<Rightarrow> 'r RequestInit \<Rightarrow> nat \<Rightarrow> thrown + 'a Response" where
  "fetchWithTimeout fetch url options timeout_ms =
     (case fetch url options of
        Inr response \<Rightarrow> Inr response
      | Inl (Error_instance name msg) \<Rightarrow>
          if name = ''AbortError''
          then Inl (TimeoutError (''Request timed out after '' @ decimal timeout_ms @ ''ms''))
          else Inl (NetworkError msg)
      | Inl Not_an_Error \<Rightarrow> Inl (NetworkError ''Network request failed''))"

text \<open>
  \<^verbatim>\<open>String.prototype.trim\<close> removes white space and line terminators at both ends. Of
  those of ECMAScript, the ones with a code below 256 are the tab, the line feed, the
  vertical tab, the form feed, the carriage return, the space and the no-break space.
\<close>

definition isWhiteSpace :: "char \<Rightarrow> bool" where
  "isWhiteSpace c = (of_char c \<in> {9, 10, 11, 12, 13, 32, 160 :: nat})"

definition trim :: "string \<Rightarrow> string" where
  "trim s = rev (dropWhile isWhiteSpace (rev (dropWhile isWhiteSpace s)))"

text \<open>\<^verbatim>\<open>!request.message || request.message.trim().length === 0\<close>\<close>

definition message_missing :: "'x AnswerRequest_scheme \<Rightarrow> bool" where
  "message_missing request =
     (message request = [] \<or> length (trim (message request)) = 0)"

text \<open>\<^verbatim>\<open>request.model || this.defaultModel\<close>\<close>

definition payload_of :: "ThredClient \<Rightarrow> 'x AnswerRequest_scheme \<Rightarrow> 'x AnswerRequest_scheme" where
  "payload_of this request =
     request\<lparr>model := Some (case model request of Some m \<Rightarrow> m | None \<Rightarrow> defaultModel this)\<rparr>"

definition request_init ::
  "ThredClient \<Rightarrow> 'x AnswerRequest_scheme \<Rightarrow> 'x AnswerRequest_scheme RequestInit" where
  "request_init this request =
     \<lparr>http_method = ''POST'', headers = getHeaders this, body_sent = payload_of this request\<rparr>"

text \<open>
  Each method gives what it did and how it ended: \<open>fetched\<close> are the calls of
  \<^verbatim>\<open>fetch\<close> in order, \<open>delivered\<close> what was passed to the callback or yielded, and
  \<open>result\<close> the value returned or thrown.
\<close>

record ('r, 'd, 'v) run =
  fetched :: "(string \<times> 'r RequestInit) list"
  delivered :: "'d list"
  result :: "thrown + 'v"

definition answer ::
  "ThredClient \<Rightarrow> ('x AnswerRequest_scheme, 'a) fetch \<Rightarrow> 'x AnswerRequest_scheme \<Rightarrow>
   ('x AnswerRequest_scheme, unit, 'a) run" where
  "answer this fetch request =
     (if message_missing request then
        \<lparr>fetched = [], delivered = [], result = Inl (Error ''Message is required'')\<rparr>
      else
        let url = baseUrl this @ ''/answer'';
            options = request_init this request
        in case fetchWithTimeout fetch url options (timeout this) of
             Inl e \<Rightarrow> \<lparr>fetched = [(url, options)], delivered = [], result = Inl e\<rparr>
           | Inr response \<Rightarrow>
               if \<not> ok response then
                 \<lparr>fetched = [(url, options)], delivered = [],
                  result = Inl (handleApiError response)\<rparr>
               else
                 \<lparr>fetched = [(url, options)], delivered = [],
                  result = json_answer response\<rparr>)"

definition answerStream ::
  "ThredClient \<Rightarrow> ('x AnswerRequest_scheme, 'a) fetch \<Rightarrow> (string \<Rightarrow> 'a option) \<Rightarrow>
   'x AnswerRequest_scheme \<Rightarrow> ('x AnswerRequest_scheme, string, 'a option) run" where
  "answerStream this fetch JSON_parse request =
     (if message_missing request then
        \<lparr>fetched = [], delivered = [], result = Inl (Error ''Message is required'')\<rparr>
      else
        let url = baseUrl this @ ''/answer/stream'';
            options = request_init this request
        in case fetchWithTimeout fetch url options (timeout this) of
             Inl e \<Rightarrow> \<lparr>fetched = [(url, options)], delivered = [], result = Inl e\<rparr>
           | Inr response \<Rightarrow>
               if \<not> ok response then
                 \<lparr>fetched = [(url, options)], delivered = [],
                  result = Inl (handleApiError response)\<rparr>
               else
                 (case body response of
                    None \<Rightarrow>
                      \<lparr>fetched = [(url, options)], delivered = [],
                       result = Inl (Error ''Response body is null'')\<rparr>
                  | Some reads \<Rightarrow>
                      \<lparr>fetched = [(url, options)],
                       delivered = fst (answerStream_body JSON_parse reads),
                       result = Inr (snd (answerStream_body JSON_parse reads))\<rparr>))"

definition answerStreamGenerator ::
  "ThredClient \<Rightarrow> ('x AnswerRequest_scheme, 'a) fetch \<Rightarrow> (string \<Rightarrow> 'a option) \<Rightarrow>
   'x AnswerRequest_scheme \<Rightarrow> ('x AnswerRequest_scheme, 'a yielded, unit) run" where
  "answerStreamGenerator this fetch JSON_parse request =
     (if message_missing request then
        \<lparr>fetched = [], delivered = [], result = Inl (Error ''Message is required'')\<rparr>
      else
        let url = baseUrl this @ ''/answer/stream'';
            options = request_init this request
        in case fetchWithTimeout fetch url options (timeout this) of
             Inl e \<Rightarrow> \<lparr>fetched = [(url, options)], delivered = [], result = Inl e\<rparr>
           | Inr response \<Rightarrow>
               if \<not> ok response then
                 \<lparr>fetched = [(url, options)], delivered = [],
                  result = Inl (handleApiError response)\<rparr>
               else
                 (case body response of
                    None \<Rightarrow>
                      \<lparr>fetched = [(url, options)], delivered = [],
                       result = Inl (Error ''Response body is null'')\<rparr>
                  | Some reads \<Rightarrow>
                      \<lparr>fetched = [(url, options)],
                       delivered = answerStreamGenerator_body JSON_parse reads,
                       result = Inr ()\<rparr>))"

section \<open>Sample values\<close>

text \<open>JSON values, for the metadata of the sample streams.\<close>

datatype json =
    JNull
  | JBool bool
  | JNumber int
  | JString string
  | JArray "json list"
  | JObject "(string \<times> json) list"

text \<open>
  \<^verbatim>\<open>JSON.parse\<close> on the strings of the sample streams below: among the strings it is
  applied to there, \<^verbatim>\<open>{"brandUsed":null}\<close> is the only JSON text, and on the others
  \<^verbatim>\<open>JSON.parse\<close> throws.
\<close>

definition JSON_parse_sample :: "string \<Rightarrow> json option" where
  \<open>JSON_parse_sample s =
     (if s = ''{"brandUsed":null}'' then Some (JObject [(''brandUsed'', JNull)]) else None)\<close>

section \<open>The error kinds of the specification\<close>

text \<open>
  The kinds of the error taxonomy; \<open>builtin\<close> is the built-in class \<^verbatim>\<open>Error\<close>, which has
  no kind of its own there. \<open>kind_of\<close> reads the class of a thrown value.
\<close>

datatype error_kind = validation | authentication | server | network | timeout_kind | generic | builtin

fun kind_of :: "thrown \<Rightarrow> error_kind" where
  "kind_of (Error msg) = builtin"
| "kind_of (ThredError msg code data) = generic"
| "kind_of (AuthenticationError msg data) = authentication"
| "kind_of (ValidationError msg data) = validation"
| "kind_of (ServerError msg data) = server"
| "kind_of (NetworkError msg) = network"
| "kind_of (TimeoutError msg) = timeout_kind"

text \<open>
  The table of the specification, in its words: 400 is the validation kind, 401
  authentication, 500 server and any other status generic; a transport failure that is an
  abort is the timeout kind and any other transport failure the network kind.
\<close>

definition kind_for_status :: "nat \<Rightarrow> error_kind" where
  "kind_for_status code =
     (if code = 400 then validation else if code = 401 then authentication
      else if code = 500 then server else generic)"

fun kind_for_failure :: "fetch_failure \<Rightarrow> error_kind" where
  "kind_for_failure (Error_instance name msg) = (if name = ''AbortError'' then timeout_kind else network)"
| "kind_for_failure Not_an_Error = network"

text \<open>A client, a request and an error response for the sample runs.\<close>

definition sample_client :: ThredClient where
  "sample_client =
     \<lparr>apiKey = ''key'', baseUrl = ''https://api.thred.dev/v1'', defaultModel = gpt_4,
      timeout = 30000\<rparr>"

definition sample_request :: AnswerRequest where
  "sample_request = \<lparr>message = ''Hi'', model = None\<rparr>"

definition sample_error_response :: "json Response" where
  "sample_error_response =
     \<lparr>ok = False, status = 400, statusText = ''Bad Request'',
      content_type = Some ''application/json; charset=utf-8'',
      json_error = Some \<lparr>error = Some ''invalid_request'', message = Some ''model is unknown''\<rparr>,
      json_answer = Inl (Error ''body used already''),
      body = None\<rparr>"

section \<open>Invariants of the loop\<close>

text \<open>
  After a read the pending buffer is empty or holds the delimiter: a buffer without the
  delimiter is delivered whole and cleared.
\<close>

definition pending :: "'m stream_state \<Rightarrow> bool" where
  "pending s = (buffer s = [] \<or> indexOf (buffer s) delimiter \<noteq> None)"

text \<open>The accumulated text is the argument of the last call of the callback, if any.\<close>

definition tracked :: "'m stream_state \<Rightarrow> bool" where
  "tracked s = (accumulatedText s = last ([] # onChunk s))"

text \<open>
  What the loop has done with the text \<open>before\<close> followed by the reads. While no metadata
  is assigned, the text received is a part \<open>F'\<close> that is within the accumulated text, in
  order, followed by the pending buffer. When the loop ends with metadata \<open>m\<close>, the reads
  consumed are an answer text that is within the accumulated text, a blank line, and a
  candidate that \<^verbatim>\<open>JSON.parse\<close> turns into \<open>m\<close>.
\<close>

definition covered ::
  "(string \<Rightarrow> 'm option) \<Rightarrow> string \<Rightarrow> string list \<Rightarrow> 'm stream_state \<Rightarrow> bool" where
  "covered JSON_parse before reads s' =
     (case metadata s' of
        None \<Rightarrow>
          (\<exists>F'. before @ concat reads = F' @ buffer s' \<and> subseq F' (accumulatedText s'))
      | Some m \<Rightarrow>
          buffer s' = [] \<and>
          (\<exists>consumed unread atext cand.
             reads = consumed @ unread \<and>
             before @ concat consumed = atext @ blank_line @ cand \<and>
             JSON_parse cand = Some m \<and> subseq atext (accumulatedText s')))"

text \<open>The same for the whole run, once the statements after the loop are done.\<close>

definition delivered_all ::
  "(string \<Rightarrow> 'm option) \<Rightarrow> string list \<Rightarrow> 'm stream_state \<Rightarrow> bool" where
  "delivered_all JSON_parse reads f =
     (case metadata f of
        None \<Rightarrow> subseq (concat reads) (accumulatedText f)
      | Some m \<Rightarrow>
          (\<exists>consumed unread atext cand.
             reads = consumed @ unread \<and>
             concat consumed = atext @ blank_line @ cand \<and>
             JSON_parse cand = Some m \<and> subseq atext (accumulatedText f)))"

section \<open>The generator yields what the callback receives\<close>

lemma emitText_simps [simp]:
  "buffer (emitText t s) = buffer s"
  "accumulatedText (emitText t s) = accumulatedText s @ t"
  "metadata (emitText t s) = metadata s"
  "onChunk (emitText t s) = onChunk s @ [accumulatedText s @ t]"
  by (simp_all add: emitText_def)

lemma read_gen_of:
  assumes "metadata s = None"
  shows "answerStreamGenerator_read JSON_parse decoded (gen_of s) =
         map_flow gen_of (answerStream_read JSON_parse decoded s)"
  using assms
  by (simp add: answerStreamGenerator_read_def answerStream_read_def Let_def
      gen_of_def yieldText_def emitText_def
      del: take_append drop_append
      split: option.splits)

lemma read_Continue_metadata:
  "answerStream_read JSON_parse decoded s = Continue s' \<Longrightarrow> metadata s' = metadata s"
  by (auto simp: answerStream_read_def Let_def split: option.splits if_splits
      simp del: take_append drop_append)

lemma read_Break:
  "answerStream_read JSON_parse decoded s = Break s' \<Longrightarrow>
   buffer s' = [] \<and> metadata s' \<noteq> None"
  by (auto simp: answerStream_read_def Let_def split: option.splits if_splits
      simp del: take_append drop_append)

lemma loop_gen_of:
  "metadata s = None \<Longrightarrow>
   answerStreamGenerator_loop JSON_parse reads (gen_of s) =
   gen_of (answerStream_loop JSON_parse reads s)"
proof (induction reads arbitrary: s)
  case Nil
  show ?case by simp
next
  case (Cons decoded reads)
  show ?case
  proof (cases "answerStream_read JSON_parse decoded s")
    case (Continue s')
    with Cons.prems have "metadata s' = None"
      by (simp add: read_Continue_metadata)
    with Cons Continue show ?thesis
      by (simp add: read_gen_of)
  next
    case (Break s')
    with Cons.prems show ?thesis
      by (simp add: read_gen_of)
  qed
qed

lemma loop_metadata_or_buffer:
  "metadata s = None \<Longrightarrow>
   metadata (answerStream_loop JSON_parse reads s) = None \<or>
   buffer (answerStream_loop JSON_parse reads s) = []"
proof (induction reads arbitrary: s)
  case Nil
  then show ?case by simp
next
  case (Cons decoded reads)
  show ?case
  proof (cases "answerStream_read JSON_parse decoded s")
    case (Continue s')
    with Cons.prems have "metadata s' = None"
      by (simp add: read_Continue_metadata)
    with Cons.IH Continue show ?thesis by simp
  next
    case (Break s')
    then show ?thesis by (simp add: read_Break)
  qed
qed

lemma rest_gen_of:
  "metadata s = None \<or> buffer s = [] \<Longrightarrow>
   answerStreamGenerator_rest JSON_parse (gen_of s) =
   gen_of (answerStream_rest JSON_parse s)"
  by (auto simp: answerStreamGenerator_rest_def answerStream_rest_def Let_def
      gen_of_def emitText_def yieldText_def split: option.splits)

lemma yields_gen_of:
  "yields (gen_of s) = map Text (onChunk s) @ map Metadata (opt_list (metadata s))"
  by (simp add: gen_of_def)

lemma gen_init_gen_of: "gen_init = gen_of stream_init"
  by (simp add: gen_init_def gen_of_def stream_init_def)

lemma generator_body_eq:
  "answerStreamGenerator_body JSON_parse reads =
   map Text (fst (answerStream_body JSON_parse reads)) @
   map Metadata (opt_list (snd (answerStream_body JSON_parse reads)))"
proof -
  have m: "metadata (stream_init :: 'a stream_state) = None"
    by (simp add: stream_init_def)
  show ?thesis
    using loop_metadata_or_buffer [OF m, of JSON_parse reads]
    by (simp add: answerStreamGenerator_body_def answerStream_body_def Let_def
        gen_init_gen_of loop_gen_of [OF m] rest_gen_of yields_gen_of)
qed

lemma texts_of_append [simp]: "texts_of (xs @ ys) = texts_of xs @ texts_of ys"
  by (induction xs rule: texts_of.induct) simp_all

lemma metadata_of_append [simp]: "metadata_of (xs @ ys) = metadata_of xs @ metadata_of ys"
  by (induction xs rule: metadata_of.induct) simp_all

lemma texts_of_map_Text [simp]: "texts_of (map Text ts) = ts"
  by (induction ts) simp_all

lemma texts_of_map_Metadata [simp]: "texts_of (map Metadata ms) = []"
  by (induction ms) simp_all

lemma metadata_of_map_Text [simp]: "metadata_of (map Text ts) = []"
  by (induction ts) simp_all

lemma metadata_of_map_Metadata [simp]: "metadata_of (map Metadata ms) = ms"
  by (induction ms) simp_all

text \<open>
  C4. On the same reads, the strings that \<^verbatim>\<open>answerStreamGenerator\<close> yields are, in
  order, the arguments of the calls of \<^verbatim>\<open>onChunk\<close> by \<^verbatim>\<open>answerStream\<close>, and the
  metadata objects it yields are the one that \<^verbatim>\<open>answerStream\<close> returns, or none when
  \<^verbatim>\<open>answerStream\<close> returns \<^verbatim>\<open>null\<close>.
\<close>

theorem generator_matches_callback:
  "texts_of (answerStreamGenerator_body JSON_parse reads) =
     fst (answerStream_body JSON_parse reads) \<and>
   metadata_of (answerStreamGenerator_body JSON_parse reads) =
     opt_list (snd (answerStream_body JSON_parse reads))"
  by (simp add: generator_body_eq)

section \<open>The accumulated text only grows\<close>

lemma chain_emitText: "chain s \<Longrightarrow> chain (emitText t s)"
  by (auto simp: chain_def sorted_wrt_append list_all_iff intro: prefix_order.trans)

lemma chain_buffer [simp]: "chain (s\<lparr>buffer := b\<rparr>) = chain s"
  by (simp add: chain_def)

lemma chain_metadata [simp]: "chain (s\<lparr>metadata := m\<rparr>) = chain s"
  by (simp add: chain_def)

lemma chain_read:
  "chain s \<Longrightarrow> case_flow chain chain (answerStream_read JSON_parse decoded s)"
  by (auto simp: answerStream_read_def Let_def chain_emitText
      split: option.splits simp del: take_append drop_append)

lemma chain_loop: "chain s \<Longrightarrow> chain (answerStream_loop JSON_parse reads s)"
proof (induction reads arbitrary: s)
  case Nil
  then show ?case by simp
next
  case (Cons decoded reads)
  from chain_read [OF Cons.prems, of JSON_parse decoded] Cons.IH
  show ?case by (cases "answerStream_read JSON_parse decoded s") simp_all
qed

lemma chain_rest: "chain s \<Longrightarrow> chain (answerStream_rest JSON_parse s)"
  by (auto simp: answerStream_rest_def Let_def chain_emitText split: option.splits)

lemma chain_init: "chain stream_init"
  by (simp add: chain_def stream_init_def)

text \<open>
  C8. In the order of delivery, each accumulated text passed to \<^verbatim>\<open>onChunk\<close> by
  \<^verbatim>\<open>answerStream\<close>, and each string yielded by \<^verbatim>\<open>answerStreamGenerator\<close>, is a prefix of
  every one delivered after it: text is appended and never removed.
\<close>

theorem accumulated_text_monotone:
  "sorted_wrt prefix (fst (answerStream_body JSON_parse reads)) \<and>
   sorted_wrt prefix (texts_of (answerStreamGenerator_body JSON_parse reads))"
  using chain_rest [OF chain_loop [OF chain_init], of JSON_parse JSON_parse reads]
  by (simp add: generator_body_eq answerStream_body_def Let_def chain_def)

section \<open>Single reads\<close>

text \<open>
  C9. When the delimiter is at the very start of the pending buffer, the read delivers no
  text: in \<^verbatim>\<open>answerStream\<close> the calls of \<^verbatim>\<open>onChunk\<close> and the accumulated text are
  unchanged, and the generator yields no string. The candidate from the brace on is still
  parsed: when \<^verbatim>\<open>JSON.parse\<close> succeeds the loop ends with the metadata, otherwise it
  goes on with the buffer kept.
\<close>

theorem delimiter_at_start:
  assumes "indexOf (buffer s @ decoded) delimiter = Some 0" and "buffer g = buffer s"
  shows "answerStream_read JSON_parse decoded s =
           (case JSON_parse (drop 2 (buffer s @ decoded)) of
              None \<Rightarrow> Continue (s\<lparr>buffer := buffer s @ decoded\<rparr>)
            | Some m \<Rightarrow> Break (s\<lparr>buffer := [], metadata := Some m\<rparr>)) \<and>
         answerStreamGenerator_read JSON_parse decoded g =
           (case JSON_parse (drop 2 (buffer s @ decoded)) of
              None \<Rightarrow> Continue (g\<lparr>buffer := buffer s @ decoded\<rparr>)
            | Some m \<Rightarrow> Break (g\<lparr>buffer := [], yields := yields g @ [Metadata m]\<rparr>)) \<and>
         (\<exists>rest. drop 2 (buffer s @ decoded) = CHR ''{'' # rest)"
proof -
  define b where "b = buffer s @ decoded"
  have i: "indexOf b delimiter = Some 0"
    using assms(1) by (simp add: b_def)
  have "prefix delimiter b"
  proof (cases b)
    case Nil
    with i show ?thesis by (simp add: delimiter_def)
  next
    case (Cons c cs)
    with i show ?thesis by (simp split: if_splits)
  qed
  then obtain rest where "b = delimiter @ rest"
    by (auto simp: prefix_def)
  then have r: "drop 2 b = CHR ''{'' # rest"
    by (simp add: delimiter_def)
  have 1: "answerStream_read JSON_parse decoded s =
           (case JSON_parse (drop 2 b) of
              None \<Rightarrow> Continue (s\<lparr>buffer := b\<rparr>)
            | Some m \<Rightarrow> Break (s\<lparr>buffer := [], metadata := Some m\<rparr>))"
    using i
    by (simp add: answerStream_read_def b_def [symmetric] Let_def numeral_2_eq_2
        split: option.splits)
  have 2: "answerStreamGenerator_read JSON_parse decoded g =
           (case JSON_parse (drop 2 b) of
              None \<Rightarrow> Continue (g\<lparr>buffer := b\<rparr>)
            | Some m \<Rightarrow> Break (g\<lparr>buffer := [], yields := yields g @ [Metadata m]\<rparr>))"
    using i assms(2)
    by (simp add: answerStreamGenerator_read_def b_def [symmetric] Let_def numeral_2_eq_2
        split: option.splits)
  from 1 2 r show ?thesis
    unfolding b_def by blast
qed

theorem delimiter_at_start_witness:
  \<open>indexOf (buffer (stream_init :: json stream_state) @ delimiter @ ''"brandUsed":null}'')
     delimiter = Some 0 \<and>
   buffer (gen_init :: json gen_state) = buffer (stream_init :: json stream_state) \<and>
   answerStream_read JSON_parse_sample (delimiter @ ''"brandUsed":null}'') stream_init =
     Break \<lparr>buffer = [], accumulatedText = [],
            metadata = Some (JObject [(''brandUsed'', JNull)]), onChunk = []\<rparr> \<and>
   answerStreamGenerator_read JSON_parse_sample (delimiter @ ''"brandUsed":null}'') gen_init =
     Break \<lparr>buffer = [], accumulatedText = [],
            yields = [Metadata (JObject [(''brandUsed'', JNull)])]\<rparr>\<close>
  using delimiter_at_start [of "stream_init :: json stream_state"
      \<open>delimiter @ ''"brandUsed":null}''\<close> "gen_init :: json gen_state" JSON_parse_sample]
  by (simp add: stream_init_def gen_init_def delimiter_def JSON_parse_sample_def)

text \<open>
  C10. A read that decodes to the empty string while the pending buffer is empty still
  delivers a text event with the accumulated text unchanged: \<^verbatim>\<open>onChunk\<close> is called
  again with it, and the generator yields it again. So a stream whose text \<open>t\<close> has no
  delimiter, followed by an empty read, delivers \<open>t\<close> twice in a row.
\<close>

theorem empty_chunk_repeats_text:
  assumes "buffer s = []" and "buffer g = []" and "indexOf t delimiter = None"
  shows "answerStream_read JSON_parse [] s =
           Continue (s\<lparr>onChunk := onChunk s @ [accumulatedText s]\<rparr>) \<and>
         answerStreamGenerator_read JSON_parse [] g =
           Continue (g\<lparr>yields := yields g @ [Text (accumulatedText g)]\<rparr>) \<and>
         answerStream_body JSON_parse [t, []] = ([t, t], None) \<and>
         answerStreamGenerator_body JSON_parse [t, []] = [Text t, Text t]"
proof -
  have 1: "answerStream_read JSON_parse [] s =
           Continue (s\<lparr>onChunk := onChunk s @ [accumulatedText s]\<rparr>)"
    using assms(1) by (simp add: answerStream_read_def delimiter_def emitText_def)
  have 2: "answerStreamGenerator_read JSON_parse [] g =
           Continue (g\<lparr>yields := yields g @ [Text (accumulatedText g)]\<rparr>)"
    using assms(2) by (simp add: answerStreamGenerator_read_def delimiter_def yieldText_def)
  have 3: "answerStream_body JSON_parse [t, []] = ([t, t], None)"
    using assms(3)
    by (simp add: answerStream_body_def answerStream_read_def answerStream_rest_def
        stream_init_def emitText_def delimiter_def)
  have 4: "answerStreamGenerator_body JSON_parse [t, []] = [Text t, Text t]"
    using 3 by (simp add: generator_body_eq)
  from 1 2 3 4 show ?thesis by blast
qed

theorem empty_chunk_repeats_text_witness:
  "buffer (stream_init :: json stream_state) = [] \<and>
   buffer (gen_init :: json gen_state) = [] \<and>
   indexOf ''Hi'' delimiter = None \<and>
   answerStream_read JSON_parse_sample [] stream_init =
     Continue \<lparr>buffer = [], accumulatedText = [], metadata = None, onChunk = [[]]\<rparr> \<and>
   answerStreamGenerator_read JSON_parse_sample [] gen_init =
     Continue \<lparr>buffer = [], accumulatedText = [], yields = [Text []]\<rparr> \<and>
   answerStream_body JSON_parse_sample [''Hi'', []] = ([''Hi'', ''Hi''], None) \<and>
   answerStreamGenerator_body JSON_parse_sample [''Hi'', []] = [Text ''Hi'', Text ''Hi'']"
  using empty_chunk_repeats_text [of "stream_init :: json stream_state"
      "gen_init :: json gen_state" "''Hi''" JSON_parse_sample]
  by (simp add: stream_init_def gen_init_def delimiter_def)

section \<open>Requests\<close>

lemma trim_blank:
  assumes "list_all isWhiteSpace s"
  shows "trim s = []"
proof -
  from assms have blank: "dropWhile isWhiteSpace s = []"
    by (simp add: list_all_iff)
  show ?thesis
    unfolding trim_def blank by simp
qed

lemma message_missing_blank:
  "list_all isWhiteSpace (message request) \<Longrightarrow> message_missing request"
  by (simp add: message_missing_def trim_blank)

text \<open>
  C6. When the message is empty or has white space only, \<^verbatim>\<open>answer\<close>,
  \<^verbatim>\<open>answerStream\<close> and \<^verbatim>\<open>answerStreamGenerator\<close> throw
  \<^verbatim>\<open>new Error("Message is required")\<close>, whatever the network is: \<^verbatim>\<open>fetch\<close> is not
  called and nothing is delivered, so no stream is read.
\<close>

theorem blank_message_rejected:
  assumes "list_all isWhiteSpace (message request)"
  shows "answer this fetch request =
           \<lparr>fetched = [], delivered = [], result = Inl (Error ''Message is required'')\<rparr> \<and>
         answerStream this fetch JSON_parse request =
           \<lparr>fetched = [], delivered = [], result = Inl (Error ''Message is required'')\<rparr> \<and>
         answerStreamGenerator this fetch JSON_parse request =
           \<lparr>fetched = [], delivered = [], result = Inl (Error ''Message is required'')\<rparr>"
  using message_missing_blank [OF assms]
  by (simp add: answer_def answerStream_def answerStreamGenerator_def)

theorem blank_message_rejected_witness:
  "list_all isWhiteSpace (message \<lparr>message = [CHR '' '', CHR 0x09, LF], model = None\<rparr>) \<and>
   answer sample_client (\<lambda>url options. Inl Not_an_Error :: fetch_failure + json Response)
       \<lparr>message = [CHR '' '', CHR 0x09, LF], model = None\<rparr> =
     \<lparr>fetched = [], delivered = [], result = Inl (Error ''Message is required'')\<rparr> \<and>
   answerStream sample_client (\<lambda>url options. Inl Not_an_Error) JSON_parse_sample
       \<lparr>message = [CHR '' '', CHR 0x09, LF], model = None\<rparr> =
     \<lparr>fetched = [], delivered = [], result = Inl (Error ''Message is required'')\<rparr> \<and>
   answerStreamGenerator sample_client (\<lambda>url options. Inl Not_an_Error) JSON_parse_sample
       \<lparr>message = [CHR '' '', CHR 0x09, LF], model = None\<rparr> =
     \<lparr>fetched = [], delivered = [], result = Inl (Error ''Message is required'')\<rparr>"
  using blank_message_rejected [of "\<lparr>message = [CHR '' '', CHR 0x09, LF], model = None\<rparr>"
      sample_client "\<lambda>url options. Inl Not_an_Error :: fetch_failure + json Response"
      JSON_parse_sample]
  by (simp add: isWhiteSpace_def)


text \<open>
  C7. For a response that is not \<^verbatim>\<open>ok\<close>, each of the three methods throws what
  \<^verbatim>\<open>handleApiError\<close> throws: its kind is the one the table gives for the status, it
  carries the status and the parsed error body (the one that \<^verbatim>\<open>response.json()\<close>
  gives when the content type is JSON), and its message is the status text when the body
  cannot be parsed. When \<^verbatim>\<open>fetch\<close> throws, the methods throw the timeout kind for an
  abort and the network kind otherwise, with no status.
\<close>

theorem api_errors_classified:
  assumes "\<not> message_missing request" and "\<not> ok r"
    and "fetch (baseUrl this @ ''/answer'') (request_init this request) = Inr r"
    and "fetch (baseUrl this @ ''/answer/stream'') (request_init this request) = Inr r"
    and "fetch' (baseUrl this @ ''/answer'') (request_init this request) = Inl e"
    and "fetch' (baseUrl this @ ''/answer/stream'') (request_init this request) = Inl e"
  shows "result (answer this fetch request) = Inl (handleApiError r) \<and>
         result (answerStream this fetch JSON_parse request) = Inl (handleApiError r) \<and>
         result (answerStreamGenerator this fetch JSON_parse request) = Inl (handleApiError r) \<and>
         kind_of (handleApiError r) = kind_for_status (status r) \<and>
         statusCode (handleApiError r) = Some (status r) \<and>
         response_of (handleApiError r) = errorData r \<and>
         errorData (r\<lparr>content_type := Some ''application/json''\<rparr>) = json_error r \<and>
         message_of (handleApiError r) = error_message r \<and>
         message_of (handleApiError (r\<lparr>json_error := None\<rparr>)) = statusText r \<and>
         (\<exists>err. result (answer this fetch' request) = Inl err \<and>
                result (answerStream this fetch' JSON_parse request) = Inl err \<and>
                result (answerStreamGenerator this fetch' JSON_parse request) = Inl err \<and>
                kind_of err = kind_for_failure e \<and> statusCode err = None)"
proof -
  have h: "kind_of (handleApiError r) = kind_for_status (status r)"
      "statusCode (handleApiError r) = Some (status r)"
      "response_of (handleApiError r) = errorData r"
      "message_of (handleApiError r) = error_message r"
    by (simp_all add: handleApiError_def kind_for_status_def)
  have d: "errorData (r\<lparr>content_type := Some ''application/json''\<rparr>) = json_error r"
    by (simp add: errorData_def includes_str_def)
  have "errorData (r\<lparr>json_error := None\<rparr>) = None"
    by (simp add: errorData_def split: option.splits)
  then have m: "message_of (handleApiError (r\<lparr>json_error := None\<rparr>)) = statusText r"
    by (simp add: handleApiError_def error_message_def)
  have ok: "result (answer this fetch request) = Inl (handleApiError r)"
      "result (answerStream this fetch JSON_parse request) = Inl (handleApiError r)"
      "result (answerStreamGenerator this fetch JSON_parse request) = Inl (handleApiError r)"
    using assms(1-4)
    by (simp_all add: answer_def answerStream_def answerStreamGenerator_def fetchWithTimeout_def)
  have "\<exists>err.
      fetchWithTimeout fetch' (baseUrl this @ ''/answer'') (request_init this request)
        (timeout this) = Inl err \<and>
      fetchWithTimeout fetch' (baseUrl this @ ''/answer/stream'') (request_init this request)
        (timeout this) = Inl err \<and>
      kind_of err = kind_for_failure e \<and> statusCode err = None"
    using assms(5,6) by (cases e) (simp_all add: fetchWithTimeout_def)
  with assms(1) have t:
      "\<exists>err. result (answer this fetch' request) = Inl err \<and>
         result (answerStream this fetch' JSON_parse request) = Inl err \<and>
         result (answerStreamGenerator this fetch' JSON_parse request) = Inl err \<and>
         kind_of err = kind_for_failure e \<and> statusCode err = None"
    by (auto simp: answer_def answerStream_def answerStreamGenerator_def)
  from h d m ok t show ?thesis by blast
qed

theorem api_errors_classified_witness:
  "\<not> message_missing sample_request \<and> \<not> ok sample_error_response \<and>
   result (answer sample_client (\<lambda>url options. Inr sample_error_response) sample_request) =
     Inl (ValidationError ''model is unknown''
       (Some \<lparr>error = Some ''invalid_request'', message = Some ''model is unknown''\<rparr>)) \<and>
   kind_of (handleApiError sample_error_response) = validation \<and>
   statusCode (handleApiError sample_error_response) = Some 400 \<and>
   message_of (handleApiError (sample_error_response\<lparr>json_error := None\<rparr>)) = ''Bad Request'' \<and>
   result (answer sample_client
       (\<lambda>url options. Inl (Error_instance ''AbortError'' ''The operation was aborted'')
          :: fetch_failure + json Response) sample_request) =
     Inl (TimeoutError ''Request timed out after 30000ms'')"
proof -
  let ?down = "\<lambda>(url :: string) (options :: AnswerRequest RequestInit).
      Inl (Error_instance ''AbortError'' ''The operation was aborted'')
        :: fetch_failure + json Response"
  let ?up = "\<lambda>(url :: string) (options :: AnswerRequest RequestInit).
      Inr sample_error_response :: fetch_failure + json Response"
  have 1: "\<not> message_missing sample_request"
    by (simp add: sample_request_def message_missing_def trim_def isWhiteSpace_def)
  have 2: "\<not> ok sample_error_response"
    by (simp add: sample_error_response_def)
  have v: "handleApiError sample_error_response =
      ValidationError ''model is unknown''
       (Some \<lparr>error = Some ''invalid_request'', message = Some ''model is unknown''\<rparr>)"
    by (simp add: handleApiError_def error_message_def errorData_def includes_str_def
        sample_error_response_def)
  have s: "statusText sample_error_response = ''Bad Request''"
    by (simp add: sample_error_response_def)
  have d: "decimal 30000 = ''30000''"
    by (simp add: decimal.simps)
  have a: "result (answer sample_client ?down sample_request) =
      Inl (TimeoutError ''Request timed out after 30000ms'')"
    using 1 by (simp add: answer_def fetchWithTimeout_def sample_client_def d)
  note t = api_errors_classified [of sample_request sample_error_response ?up sample_client
      ?down "Error_instance ''AbortError'' ''The operation was aborted''" JSON_parse_sample,
      OF 1 2 refl refl refl refl]
  from t have "result (answer sample_client ?up sample_request) =
      Inl (handleApiError sample_error_response)"
    and "kind_of (handleApiError sample_error_response) =
      kind_for_status (status sample_error_response)"
    and "statusCode (handleApiError sample_error_response) = Some (status sample_error_response)"
    and "message_of (handleApiError (sample_error_response\<lparr>json_error := None\<rparr>)) =
      statusText sample_error_response"
    by blast+
  with 1 2 v s a show ?thesis
    by (simp add: kind_for_status_def)
qed


section \<open>Facts about \<^verbatim>\<open>indexOf\<close>, \<^verbatim>\<open>split\<close> and \<^verbatim>\<open>join\<close>\<close>

lemma indexOf_prefix:
  "indexOf s pat = Some i \<Longrightarrow> prefix pat (drop i s)"
proof (induction s arbitrary: i)
  case Nil
  then show ?case by (simp split: if_splits)
next
  case (Cons c cs)
  show ?case
  proof (cases "prefix pat (c # cs)")
    case True
    with Cons.prems show ?thesis by simp
  next
    case False
    with Cons.prems obtain j where "indexOf cs pat = Some j" "i = Suc j"
      by auto
    with Cons.IH show ?thesis by simp
  qed
qed

lemma indexOf_split3:
  assumes "indexOf s pat = Some i"
  shows "s = take i s @ pat @ drop (i + length pat) s"
proof -
  from indexOf_prefix [OF assms] obtain v where v: "drop i s = pat @ v"
    by (auto simp: prefix_def)
  then have "drop (length pat) (drop i s) = v"
    by simp
  then have "drop (i + length pat) s = v"
    by (simp add: add.commute)
  with v have "take i s @ pat @ drop (i + length pat) s = take i s @ drop i s"
    by simp
  then show ?thesis by simp
qed

lemma prefix_append_short:
  assumes "prefix pat (xs @ t)" and "length pat \<le> length xs"
  shows "prefix pat xs"
proof -
  from assms(1) have "prefix pat xs \<or> (\<exists>us. pat = xs @ us \<and> prefix us t)"
    by (simp add: prefix_append)
  then show ?thesis
  proof
    assume "prefix pat xs"
    then show ?thesis .
  next
    assume "\<exists>us. pat = xs @ us \<and> prefix us t"
    then obtain us where "pat = xs @ us" by blast
    with assms(2) show ?thesis by simp
  qed
qed

lemma indexOf_append:
  "indexOf s pat = Some i \<Longrightarrow> indexOf (s @ t) pat = Some i"
proof (induction s arbitrary: i)
  case Nil
  then have "pat = []" and "i = 0"
    by (simp_all split: if_splits)
  then show ?case by (cases t) simp_all
next
  case (Cons c cs)
  show ?case
  proof (cases "prefix pat (c # cs)")
    case True
    then have "prefix pat (c # cs @ t)"
      using prefix_prefix [of pat "c # cs" t] by simp
    with True Cons.prems show ?thesis by simp
  next
    case False
    with Cons.prems obtain j where j: "indexOf cs pat = Some j" "i = Suc j"
      by auto
    from indexOf_bound [OF j(1)] have "length pat \<le> length (c # cs)"
      by simp
    with False have "\<not> prefix pat ((c # cs) @ t)"
      using prefix_append_short by blast
    with j Cons.IH show ?thesis by simp
  qed
qed

lemma indexOf_occurs:
  "indexOf (u @ pat @ v) pat \<noteq> None"
proof (induction u)
  case Nil
  have p: "prefix pat (pat @ v)" by simp
  show ?case
  proof (cases "pat @ v")
    case Nil
    then show ?thesis by simp
  next
    case (Cons a l)
    with p have "indexOf (a # l) pat = Some 0" by simp
    with Cons show ?thesis by simp
  qed
next
  case (Cons c u)
  then show ?case by auto
qed

lemma indexOf_None_middle:
  assumes "indexOf (a @ b @ c) pat = None"
  shows "indexOf b pat = None"
proof (rule ccontr)
  assume "indexOf b pat \<noteq> None"
  then obtain i where "indexOf b pat = Some i" by auto
  from indexOf_split3 [OF this] have "a @ b @ c = (a @ take i b) @ pat @ (drop (i + length pat) b @ c)"
    by simp
  with indexOf_occurs [of "a @ take i b" pat "drop (i + length pat) b @ c"] assms
  show False by simp
qed

lemma indexOf_le_occurrence:
  "prefix pat (drop k s) \<Longrightarrow> k \<le> length s \<Longrightarrow> \<exists>i\<le>k. indexOf s pat = Some i"
proof (induction s arbitrary: k)
  case Nil
  then show ?case by simp
next
  case (Cons c cs)
  show ?case
  proof (cases "prefix pat (c # cs)")
    case True
    then show ?thesis by simp
  next
    case False
    with Cons.prems obtain k' where k': "k = Suc k'"
      by (cases k) auto
    with Cons.prems have "prefix pat (drop k' cs)" "k' \<le> length cs"
      by simp_all
    from Cons.IH [OF this] obtain i where "i \<le> k'" "indexOf cs pat = Some i"
      by blast
    with False k' show ?thesis by simp
  qed
qed

lemma split_Some:
  "sep \<noteq> [] \<Longrightarrow> indexOf s sep = Some i \<Longrightarrow>
   split s sep = take i s # split (drop (i + length sep) s) sep"
  by (subst split.simps) simp

lemma split_None:
  "sep \<noteq> [] \<Longrightarrow> indexOf s sep = None \<Longrightarrow> split s sep = [s]"
  by (subst split.simps) simp

lemma split_not_Nil: "sep \<noteq> [] \<Longrightarrow> split s sep \<noteq> []"
  by (subst split.simps) (simp split: option.splits)

lemma join_Cons: "xs \<noteq> [] \<Longrightarrow> join (x # xs) sep = x @ sep @ join xs sep"
  by (cases xs) simp_all

lemma join_split:
  "sep \<noteq> [] \<Longrightarrow> join (split s sep) sep = s"
proof (induction s sep rule: split.induct)
  case (1 s sep)
  show ?case
  proof (cases "indexOf s sep")
    case None
    with "1.prems" show ?thesis by (simp add: split_None)
  next
    case (Some i)
    with "1.IH" "1.prems" have "join (split (drop (i + length sep) s) sep) sep = drop (i + length sep) s"
      by simp
    with Some "1.prems" indexOf_split3 [OF Some] show ?thesis
      by (simp add: split_Some join_Cons split_not_Nil)
  qed
qed

section \<open>The cases of a read and of the end of the stream\<close>

lemma read_flush:
  assumes "indexOf (buffer s @ decoded) delimiter = None"
  shows "answerStream_read JSON_parse decoded s =
         Continue ((emitText (buffer s @ decoded) s)\<lparr>buffer := []\<rparr>)"
  using assms by (simp add: answerStream_read_def emitText_def)

lemma read_found:
  assumes "indexOf (buffer s @ decoded) delimiter = Some i"
  shows "answerStream_read JSON_parse decoded s =
         (let b = buffer s @ decoded;
              s1 = (if take i b \<noteq> [] then emitText (take i b) (s\<lparr>buffer := b\<rparr>)
                    else s\<lparr>buffer := b\<rparr>)
          in case JSON_parse (drop (i + 2) b) of
               None \<Rightarrow> Continue s1
             | Some m \<Rightarrow> Break (s1\<lparr>metadata := Some m, buffer := []\<rparr>))"
  using assms
  by (simp add: answerStream_read_def Let_def
      del: take_append drop_append take_eq_Nil add_2_eq_Suc add_2_eq_Suc')

lemma delimiter_blank_line: "delimiter = blank_line @ ''{''"
  by (simp add: delimiter_def blank_line_def)

lemma length_blank_line [simp]: "length blank_line = 2"
  by (simp add: blank_line_def)

lemma blank_line_not_Nil [simp]: "blank_line \<noteq> []"
  by (simp add: blank_line_def)

lemma length_delimiter [simp]: "length delimiter = 3"
  by (simp add: delimiter_def)

text \<open>The candidate starts two characters after the start of the delimiter, at the brace.\<close>

lemma delimiter_split:
  assumes "indexOf b delimiter = Some k"
  shows "b = take k b @ blank_line @ drop (k + 2) b"
    and "drop (k + 2) b = CHR ''{'' # drop (k + 3) b"
proof -
  from indexOf_prefix [OF assms] obtain v where v: "drop k b = delimiter @ v"
    by (auto simp: prefix_def)
  have "drop (k + 2) b = drop 2 (drop k b)" and "drop (k + 3) b = drop 3 (drop k b)"
    by (simp_all add: add.commute)
  with v have c: "drop (k + 2) b = CHR ''{'' # v" and "drop (k + 3) b = v"
    by (simp_all add: delimiter_def)
  then show "drop (k + 2) b = CHR ''{'' # drop (k + 3) b"
    by (simp only:)
  have "take k b @ blank_line @ drop (k + 2) b = take k b @ drop k b"
    by (simp only: c v delimiter_blank_line append_assoc append_Cons append_Nil)
  then show "b = take k b @ blank_line @ drop (k + 2) b"
    by (simp only: append_take_drop_id)
qed

lemma blank_line_before_delimiter:
  assumes "indexOf b delimiter = Some k"
  shows "\<exists>i\<le>k. indexOf b blank_line = Some i"
proof -
  from indexOf_prefix [OF assms] have "prefix blank_line (drop k b)"
    by (auto simp: delimiter_blank_line prefix_def)
  moreover from indexOf_bound [OF assms] have "k \<le> length b"
    by simp
  ultimately show ?thesis
    by (rule indexOf_le_occurrence)
qed

text \<open>
  After the loop a buffer that is not empty holds the delimiter, so the split has more
  than one piece and the pieces after the first, joined, are what follows the first blank
  line.
\<close>

lemma rest_found:
  assumes "indexOf (buffer s) delimiter = Some k"
  obtains i where "i \<le> k" and "indexOf (buffer s) blank_line = Some i"
    and "split (buffer s) blank_line =
           take i (buffer s) # split (drop (i + 2) (buffer s)) blank_line"
    and "join (split (drop (i + 2) (buffer s)) blank_line) blank_line = drop (i + 2) (buffer s)"
    and "drop (i + 2) (buffer s) \<noteq> []"
    and "buffer s = take i (buffer s) @ blank_line @ drop (i + 2) (buffer s)"
    and "answerStream_rest JSON_parse s =
         (let s1 = (if take i (buffer s) \<noteq> [] then emitText (take i (buffer s)) s else s)
          in case JSON_parse (drop (i + 2) (buffer s)) of
               Some m \<Rightarrow> s1\<lparr>metadata := Some m\<rparr>
             | None \<Rightarrow> emitText (blank_line @ drop (i + 2) (buffer s)) s1)"
proof -
  define b where "b = buffer s"
  from blank_line_before_delimiter [OF assms] obtain i
    where i: "i \<le> k" "indexOf b blank_line = Some i"
    by (auto simp: b_def)
  have sp: "split b blank_line = take i b # split (drop (i + 2) b) blank_line"
    using split_Some [OF _ i(2)] by simp
  have jn: "join (split (drop (i + 2) b) blank_line) blank_line = drop (i + 2) b"
    by (simp add: join_split)
  from indexOf_bound [OF assms] i(1) have "i + 2 < length b"
    by (simp add: b_def)
  then have ne: "drop (i + 2) b \<noteq> []" and bne: "b \<noteq> []"
    by auto
  have b3: "b = take i b @ blank_line @ drop (i + 2) b"
    using indexOf_split3 [OF i(2)] by simp
  have len: "1 < length (split b blank_line)"
    using split_not_Nil [of blank_line "drop (i + 2) b"] by (simp add: sp)
  have "answerStream_rest JSON_parse s =
         (let s1 = (if take i b \<noteq> [] then emitText (take i b) s else s)
          in case JSON_parse (drop (i + 2) b) of
               Some m \<Rightarrow> s1\<lparr>metadata := Some m\<rparr>
             | None \<Rightarrow> emitText (blank_line @ drop (i + 2) b) s1)"
    unfolding answerStream_rest_def b_def [symmetric]
    using bne len ne
    by (simp add: Let_def sp jn del: take_eq_Nil add_2_eq_Suc add_2_eq_Suc')
  with i sp jn ne b3 that show thesis
    unfolding b_def by blast
qed

lemma gen_read_found:
  assumes "indexOf (buffer g @ decoded) delimiter = Some i"
  shows "answerStreamGenerator_read JSON_parse decoded g =
         (let b = buffer g @ decoded;
              g1 = (if take i b \<noteq> [] then yieldText (take i b) (g\<lparr>buffer := b\<rparr>)
                    else g\<lparr>buffer := b\<rparr>)
          in case JSON_parse (drop (i + 2) b) of
               None \<Rightarrow> Continue g1
             | Some m \<Rightarrow> Break (g1\<lparr>yields := yields g1 @ [Metadata m], buffer := []\<rparr>))"
  using assms
  by (simp add: answerStreamGenerator_read_def Let_def
      del: take_append drop_append take_eq_Nil add_2_eq_Suc add_2_eq_Suc'
      split: option.splits)

lemma yieldText_simps [simp]:
  "buffer (yieldText t g) = buffer g"
  "accumulatedText (yieldText t g) = accumulatedText g @ t"
  "yields (yieldText t g) = yields g @ [Text (accumulatedText g @ t)]"
  by (simp_all add: yieldText_def)

lemma candidate_grows:
  assumes "indexOf b delimiter = Some i"
  shows "indexOf (b @ next_read) delimiter = Some i"
    and "drop (i + 2) (b @ next_read) = drop (i + 2) b @ next_read"
proof -
  show "indexOf (b @ next_read) delimiter = Some i"
    using assms by (rule indexOf_append)
  from indexOf_bound [OF assms] have "i + 2 \<le> length b"
    by simp
  then show "drop (i + 2) (b @ next_read) = drop (i + 2) b @ next_read"
    by simp
qed

section \<open>Sample runs\<close>

lemmas run_defs =
  answerStream_body_def answerStream_read_def answerStream_rest_def stream_init_def
  emitText_def delimiter_def blank_line_def JSON_parse_sample_def Let_def split.simps

text \<open>
  C1. The claim fails on the code: the stream \<^verbatim>\<open>Hello world\n\n{"brandUsed":null}\<close>
  gives the text \<^verbatim>\<open>Hello world\<close> and the metadata when it comes as one chunk. Cut
  inside the JSON, the text before the delimiter is appended again at the second read and
  the last accumulated text is \<^verbatim>\<open>Hello worldHello world\<close>. Cut inside the delimiter,
  the delimiter is never found: the JSON is delivered as text and \<^verbatim>\<open>null\<close> is returned.
\<close>

theorem rechunking_changes_result:
  \<open>answerStream_body JSON_parse_sample [''Hello world'' @ blank_line @ ''{"brandUsed":null}''] =
     ([''Hello world''], Some (JObject [(''brandUsed'', JNull)])) \<and>
   answerStream_body JSON_parse_sample
       [''Hello world'' @ blank_line @ ''{"brand'', ''Used":null}''] =
     ([''Hello world'', ''Hello worldHello world''], Some (JObject [(''brandUsed'', JNull)])) \<and>
   answerStream_body JSON_parse_sample
       [''Hello world'' @ [LF], [LF] @ ''{"brandUsed":null}''] =
     ([''Hello world'' @ [LF], ''Hello world'' @ blank_line @ ''{"brandUsed":null}''], None)\<close>
  by (simp add: run_defs)

section \<open>A candidate that does not parse yet\<close>

text \<open>
  C3, as stated, fails on the code: in the read that finds the delimiter, the text before
  the delimiter is appended and delivered before \<^verbatim>\<open>JSON.parse\<close> is tried, so a read
  whose candidate does not parse still delivers text.
\<close>

theorem parse_failure_emits_text:
  \<open>indexOf (buffer (stream_init :: json stream_state) @ ''Hi'' @ delimiter) delimiter = Some 2 \<and>
   JSON_parse_sample (drop (2 + 2) (buffer (stream_init :: json stream_state) @ ''Hi'' @ delimiter)) = None \<and>
   answerStream_read JSON_parse_sample (''Hi'' @ delimiter) stream_init =
     Continue \<lparr>buffer = ''Hi'' @ delimiter, accumulatedText = ''Hi'', metadata = None,
               onChunk = [''Hi'']\<rparr> \<and>
   answerStreamGenerator_read JSON_parse_sample (''Hi'' @ delimiter) gen_init =
     Continue \<lparr>buffer = ''Hi'' @ delimiter, accumulatedText = ''Hi'', yields = [Text ''Hi'']\<rparr>\<close>
  by (simp add: run_defs answerStreamGenerator_read_def gen_init_def yieldText_def)

text \<open>
  C3, amended. When the delimiter is found at \<open>i\<close> and \<^verbatim>\<open>JSON.parse\<close> throws on the
  candidate, the read assigns or yields no metadata, keeps the buffer with the candidate,
  and the loop goes on with the next read; when the text before the delimiter is empty,
  the read delivers nothing at all. At the next read the delimiter is found at \<open>i\<close> again
  and the candidate is the old one followed by the new chunk: when it parses, the loop
  ends with the metadata, otherwise the buffer is kept again.
\<close>

theorem parse_failure_keeps_candidate:
  assumes "indexOf (buffer s @ decoded) delimiter = Some i"
    and "JSON_parse (drop (i + 2) (buffer s @ decoded)) = None"
    and "buffer g = buffer s"
  shows "\<exists>s' g'.
           answerStream_read JSON_parse decoded s = Continue s' \<and>
           answerStreamGenerator_read JSON_parse decoded g = Continue g' \<and>
           metadata s' = metadata s \<and> metadata_of (yields g') = metadata_of (yields g) \<and>
           buffer s' = buffer s @ decoded \<and> buffer g' = buffer s @ decoded \<and>
           (take i (buffer s @ decoded) = [] \<longrightarrow>
              onChunk s' = onChunk s \<and> yields g' = yields g) \<and>
           answerStream_loop JSON_parse (decoded # reads) s =
             answerStream_loop JSON_parse reads s' \<and>
           answerStreamGenerator_loop JSON_parse (decoded # reads) g =
             answerStreamGenerator_loop JSON_parse reads g' \<and>
           (\<forall>next_read.
              indexOf (buffer s' @ next_read) delimiter = Some i \<and>
              drop (i + 2) (buffer s' @ next_read) =
                drop (i + 2) (buffer s @ decoded) @ next_read \<and>
              (case JSON_parse (drop (i + 2) (buffer s @ decoded) @ next_read) of
                 None \<Rightarrow>
                   (\<exists>s'' g''. answerStream_read JSON_parse next_read s' = Continue s'' \<and>
                      answerStreamGenerator_read JSON_parse next_read g' = Continue g'' \<and>
                      buffer s'' = buffer s' @ next_read \<and> buffer g'' = buffer s' @ next_read)
               | Some m \<Rightarrow>
                   (\<exists>s'' g''. answerStream_read JSON_parse next_read s' = Break s'' \<and>
                      answerStreamGenerator_read JSON_parse next_read g' = Break g'' \<and>
                      metadata s'' = Some m \<and>
                      metadata_of (yields g'') = metadata_of (yields g') @ [m])))"
proof -
  define b where "b = buffer s @ decoded"
  define s' where "s' = (if take i b \<noteq> [] then emitText (take i b) (s\<lparr>buffer := b\<rparr>)
                         else s\<lparr>buffer := b\<rparr>)"
  define g' where "g' = (if take i b \<noteq> [] then yieldText (take i b) (g\<lparr>buffer := b\<rparr>)
                         else g\<lparr>buffer := b\<rparr>)"
  have i: "indexOf b delimiter = Some i" and f: "JSON_parse (drop (i + 2) b) = None"
    and gb: "buffer g @ decoded = b"
    using assms by (simp_all add: b_def)
  have rs: "answerStream_read JSON_parse decoded s = Continue s'"
    using read_found [OF assms(1), of JSON_parse] f
    by (simp only: Let_def b_def [symmetric] s'_def option.case)
  have rg: "answerStreamGenerator_read JSON_parse decoded g = Continue g'"
    using gen_read_found [of g decoded i JSON_parse] i f
    by (simp only: Let_def gb g'_def option.case)
  have bs: "buffer s' = b" and bg: "buffer g' = b"
    and ms: "metadata s' = metadata s"
    and mg: "metadata_of (yields g') = metadata_of (yields g)"
    and e: "take i b = [] \<longrightarrow> onChunk s' = onChunk s \<and> yields g' = yields g"
    by (simp_all add: s'_def g'_def del: take_eq_Nil)
  have ls: "answerStream_loop JSON_parse (decoded # reads) s =
      answerStream_loop JSON_parse reads s'"
    by (simp add: rs)
  have lg: "answerStreamGenerator_loop JSON_parse (decoded # reads) g =
      answerStreamGenerator_loop JSON_parse reads g'"
    by (simp add: rg)
  have nx: "indexOf (buffer s' @ next_read) delimiter = Some i \<and>
      drop (i + 2) (buffer s' @ next_read) = drop (i + 2) b @ next_read \<and>
      (case JSON_parse (drop (i + 2) b @ next_read) of
         None \<Rightarrow>
           (\<exists>s'' g''. answerStream_read JSON_parse next_read s' = Continue s'' \<and>
              answerStreamGenerator_read JSON_parse next_read g' = Continue g'' \<and>
              buffer s'' = buffer s' @ next_read \<and> buffer g'' = buffer s' @ next_read)
       | Some m \<Rightarrow>
           (\<exists>s'' g''. answerStream_read JSON_parse next_read s' = Break s'' \<and>
              answerStreamGenerator_read JSON_parse next_read g' = Break g'' \<and>
              metadata s'' = Some m \<and>
              metadata_of (yields g'') = metadata_of (yields g') @ [m]))" for next_read
  proof -
    have i': "indexOf (b @ next_read) delimiter = Some i"
      and d': "drop (i + 2) (b @ next_read) = drop (i + 2) b @ next_read"
      using candidate_grows [OF i] by blast+
    have "case JSON_parse (drop (i + 2) (b @ next_read)) of
         None \<Rightarrow>
           (\<exists>s'' g''. answerStream_read JSON_parse next_read s' = Continue s'' \<and>
              answerStreamGenerator_read JSON_parse next_read g' = Continue g'' \<and>
              buffer s'' = b @ next_read \<and> buffer g'' = b @ next_read)
       | Some m \<Rightarrow>
           (\<exists>s'' g''. answerStream_read JSON_parse next_read s' = Break s'' \<and>
              answerStreamGenerator_read JSON_parse next_read g' = Break g'' \<and>
              metadata s'' = Some m \<and>
              metadata_of (yields g'') = metadata_of (yields g') @ [m])"
      using read_found [of s' next_read i JSON_parse]
        gen_read_found [of g' next_read i JSON_parse] i'
      by (simp add: bs bg Let_def split: option.splits
          del: take_append drop_append take_eq_Nil add_2_eq_Suc add_2_eq_Suc')
    with i' d' show ?thesis
      by (simp only: bs)
  qed
  from rs rg ms mg bs bg e ls lg nx show ?thesis
    unfolding b_def by blast
qed

theorem parse_failure_keeps_candidate_witness:
  \<open>indexOf (buffer (stream_init :: json stream_state) @ delimiter @ ''"brand'') delimiter =
     Some 0 \<and>
   JSON_parse_sample
     (drop (0 + 2) (buffer (stream_init :: json stream_state) @ delimiter @ ''"brand'')) = None \<and>
   buffer (gen_init :: json gen_state) = buffer (stream_init :: json stream_state) \<and>
   answerStream_read JSON_parse_sample (delimiter @ ''"brand'') stream_init =
     Continue \<lparr>buffer = delimiter @ ''"brand'', accumulatedText = [], metadata = None,
               onChunk = []\<rparr> \<and>
   answerStream_loop JSON_parse_sample [delimiter @ ''"brand'', ''Used":null}''] stream_init =
     \<lparr>buffer = [], accumulatedText = [],
      metadata = Some (JObject [(''brandUsed'', JNull)]), onChunk = []\<rparr> \<and>
   (\<exists>s' g'.
      answerStream_read JSON_parse_sample (delimiter @ ''"brand'') stream_init = Continue s' \<and>
      answerStreamGenerator_read JSON_parse_sample (delimiter @ ''"brand'') gen_init =
        Continue g' \<and>
      buffer s' = delimiter @ ''"brand'' \<and> buffer g' = delimiter @ ''"brand'')\<close>
proof -
  let ?d = \<open>delimiter @ ''"brand''\<close>
  have 1: "indexOf (buffer (stream_init :: json stream_state) @ ?d) delimiter = Some 0"
    by (simp add: stream_init_def delimiter_def)
  have 2: "JSON_parse_sample
      (drop (0 + 2) (buffer (stream_init :: json stream_state) @ ?d)) = None"
    by (simp add: stream_init_def delimiter_def JSON_parse_sample_def)
  have 3: "buffer (gen_init :: json gen_state) = buffer (stream_init :: json stream_state)"
    by (simp add: stream_init_def gen_init_def)
  have 4: "answerStream_read JSON_parse_sample ?d stream_init =
      Continue \<lparr>buffer = ?d, accumulatedText = [], metadata = None, onChunk = []\<rparr>"
    by (simp add: run_defs)
  have 5: \<open>answerStream_loop JSON_parse_sample [?d, ''Used":null}''] stream_init =
      \<lparr>buffer = [], accumulatedText = [],
       metadata = Some (JObject [(''brandUsed'', JNull)]), onChunk = []\<rparr>\<close>
    by (simp add: run_defs)
  from parse_failure_keeps_candidate [of "stream_init :: json stream_state" ?d 0
      JSON_parse_sample "gen_init :: json gen_state" "[]", OF 1 2 3]
  have 6: "\<exists>s' g'.
      answerStream_read JSON_parse_sample ?d stream_init = Continue s' \<and>
      answerStreamGenerator_read JSON_parse_sample ?d gen_init = Continue g' \<and>
      buffer s' = ?d \<and> buffer g' = ?d"
    by (simp add: stream_init_def) blast
  from 1 2 3 4 5 6 show ?thesis
    by (intro conjI)
qed

section \<open>The end of the stream\<close>

lemma pending_read:
  "case_flow pending pending (answerStream_read JSON_parse decoded s)"
proof (cases "indexOf (buffer s @ decoded) delimiter")
  case None
  then show ?thesis
    by (simp add: read_flush pending_def)
next
  case (Some i)
  then show ?thesis
    by (simp add: read_found pending_def Let_def split: option.splits del: take_eq_Nil)
qed

lemma pending_loop:
  "pending s \<Longrightarrow> pending (answerStream_loop JSON_parse reads s)"
proof (induction reads arbitrary: s)
  case Nil
  then show ?case by simp
next
  case (Cons decoded reads)
  from pending_read [of JSON_parse decoded s] Cons.IH
  show ?case by (cases "answerStream_read JSON_parse decoded s") simp_all
qed

lemma pending_init: "pending stream_init"
  by (simp add: pending_def stream_init_def)

lemma loop_no_delimiter:
  assumes "buffer s = []" and "indexOf (concat reads) delimiter = None"
  shows "buffer (answerStream_loop JSON_parse reads s) = [] \<and>
         metadata (answerStream_loop JSON_parse reads s) = metadata s \<and>
         accumulatedText (answerStream_loop JSON_parse reads s) =
           accumulatedText s @ concat reads \<and>
         (reads \<noteq> [] \<longrightarrow>
            onChunk (answerStream_loop JSON_parse reads s) \<noteq> [] \<and>
            last (onChunk (answerStream_loop JSON_parse reads s)) =
              accumulatedText s @ concat reads)"
  using assms
proof (induction reads arbitrary: s)
  case Nil
  then show ?case by simp
next
  case (Cons decoded reads)
  define s1 where "s1 = (emitText (buffer s @ decoded) s)\<lparr>buffer := []\<rparr>"
  from Cons.prems(2) have "indexOf ([] @ decoded @ concat reads) delimiter = None"
    by simp
  then have d: "indexOf decoded delimiter = None"
    by (rule indexOf_None_middle)
  from Cons.prems(2) have "indexOf (decoded @ concat reads @ []) delimiter = None"
    by simp
  then have r: "indexOf (concat reads) delimiter = None"
    by (rule indexOf_None_middle)
  from d Cons.prems(1) have step: "answerStream_read JSON_parse decoded s = Continue s1"
    by (simp add: read_flush s1_def)
  have s1: "buffer s1 = []" "metadata s1 = metadata s"
    "accumulatedText s1 = accumulatedText s @ decoded"
    "onChunk s1 = onChunk s @ [accumulatedText s @ decoded]"
    using Cons.prems(1) by (simp_all add: s1_def)
  from Cons.IH [OF s1(1) r] s1 step show ?case
    by (cases reads) simp_all
qed

lemma body_no_delimiter:
  assumes "indexOf (concat reads) delimiter = None" and "reads \<noteq> []"
  shows "snd (answerStream_body JSON_parse reads) = None \<and>
         fst (answerStream_body JSON_parse reads) \<noteq> [] \<and>
         last (fst (answerStream_body JSON_parse reads)) = concat reads"
proof -
  have "buffer (stream_init :: 'a stream_state) = []"
    by (simp add: stream_init_def)
  from loop_no_delimiter [OF this assms(1), of JSON_parse] assms(2) show ?thesis
    by (simp add: answerStream_body_def answerStream_rest_def Let_def stream_init_def)
qed

text \<open>
  When the loop of \<^verbatim>\<open>answerStream\<close> ends with a pending buffer that is not empty, the
  split on the blank line has a first piece and at least one more; the first piece is
  appended and delivered when it is not empty, the others joined by the blank line are
  given to \<^verbatim>\<open>JSON.parse\<close>, and when it throws the blank line and the joined rest are
  appended and delivered.
\<close>

lemma fallback_at_stream_end:
  assumes "s = answerStream_loop JSON_parse reads stream_init" and "buffer s \<noteq> []"
  shows "\<exists>textPart others.
            split (buffer s) blank_line = textPart # others \<and> others \<noteq> [] \<and>
            answerStream_rest JSON_parse s =
              (let s1 = (if textPart \<noteq> [] then emitText textPart s else s)
               in case JSON_parse (join others blank_line) of
                    Some m \<Rightarrow> s1\<lparr>metadata := Some m\<rparr>
                  | None \<Rightarrow> emitText (blank_line @ join others blank_line) s1)"
proof -
  from pending_loop [OF pending_init, of JSON_parse reads] assms(1,2)
  obtain k where idx: "indexOf (buffer s) delimiter = Some k"
    by (auto simp: pending_def)
  obtain i where "i \<le> k" and "indexOf (buffer s) blank_line = Some i"
    and sp: "split (buffer s) blank_line =
           take i (buffer s) # split (drop (i + 2) (buffer s)) blank_line"
    and jn: "join (split (drop (i + 2) (buffer s)) blank_line) blank_line = drop (i + 2) (buffer s)"
    and "drop (i + 2) (buffer s) \<noteq> []"
    and "buffer s = take i (buffer s) @ blank_line @ drop (i + 2) (buffer s)"
    and rest: "answerStream_rest JSON_parse s =
         (let s1 = (if take i (buffer s) \<noteq> [] then emitText (take i (buffer s)) s else s)
          in case JSON_parse (drop (i + 2) (buffer s)) of
               Some m \<Rightarrow> s1\<lparr>metadata := Some m\<rparr>
             | None \<Rightarrow> emitText (blank_line @ drop (i + 2) (buffer s)) s1)"
    by (rule rest_found [OF idx])
  define textPart where "textPart = take i (buffer s)"
  define others where "others = split (drop (i + 2) (buffer s)) blank_line"
  have ne: "others \<noteq> []"
    by (simp add: others_def split_not_Nil)
  have sp': "split (buffer s) blank_line = textPart # others"
    by (simp only: sp textPart_def others_def)
  have rest': "answerStream_rest JSON_parse s =
              (let s1 = (if textPart \<noteq> [] then emitText textPart s else s)
               in case JSON_parse (join others blank_line) of
                    Some m \<Rightarrow> s1\<lparr>metadata := Some m\<rparr>
                  | None \<Rightarrow> emitText (blank_line @ join others blank_line) s1)"
    by (simp only: rest textPart_def others_def jn)
  from sp' ne rest' have 1: "\<exists>textPart others.
            split (buffer s) blank_line = textPart # others \<and> others \<noteq> [] \<and>
            answerStream_rest JSON_parse s =
              (let s1 = (if textPart \<noteq> [] then emitText textPart s else s)
               in case JSON_parse (join others blank_line) of
                    Some m \<Rightarrow> s1\<lparr>metadata := Some m\<rparr>
                  | None \<Rightarrow> emitText (blank_line @ join others blank_line) s1)"
    by (intro exI conjI)
  from 1 show ?thesis .
qed

text \<open>
  C5. The fallback is as the claim describes it, but its conclusion fails on the code. A
  stream reaches the fallback only when its buffer holds the delimiter, and then the text
  before the delimiter has been appended in the loop already: the fallback appends the
  first piece once more. The one chunk \<^verbatim>\<open>Answer\n\n{x\<close> ends in a segment after a blank
  line that is not JSON; the callback gets \<^verbatim>\<open>Answer\<close>, \<^verbatim>\<open>AnswerAnswer\<close> and
  \<^verbatim>\<open>AnswerAnswer\n\n{x\<close>, so the text delivered in total is not the stream. The stream
  \<^verbatim>\<open>Answer\n\nNot Json\<close> of the example has no delimiter, never reaches the fallback
  and is delivered as it is.
\<close>

theorem fallback_repeats_text:
  "split (''Answer'' @ blank_line @ ''{x'') blank_line = [''Answer'', ''{x''] \<and>
   JSON_parse_sample ''{x'' = None \<and>
   answerStream_body JSON_parse_sample [''Answer'' @ blank_line @ ''{x''] =
     ([''Answer'', ''AnswerAnswer'', ''AnswerAnswer'' @ blank_line @ ''{x''], None) \<and>
   last (fst (answerStream_body JSON_parse_sample [''Answer'' @ blank_line @ ''{x''])) \<noteq>
     ''Answer'' @ blank_line @ ''{x'' \<and>
   answerStream_body JSON_parse_sample [''Answer'' @ blank_line @ ''Not Json''] =
     ([''Answer'' @ blank_line @ ''Not Json''], None)"
  by (simp add: run_defs)

section \<open>All the text is delivered, the metadata last\<close>

lemma tracked_emitText [simp]: "tracked (emitText t s)"
  by (simp add: tracked_def)

lemma tracked_buffer [simp]: "tracked (s\<lparr>buffer := b\<rparr>) = tracked s"
  by (simp add: tracked_def)

lemma tracked_metadata [simp]: "tracked (s\<lparr>metadata := m\<rparr>) = tracked s"
  by (simp add: tracked_def)

lemma tracked_read:
  "tracked s \<Longrightarrow> case_flow tracked tracked (answerStream_read JSON_parse decoded s)"
  by (simp add: answerStream_read_def Let_def split: option.splits
      del: take_append drop_append take_eq_Nil)

lemma tracked_loop: "tracked s \<Longrightarrow> tracked (answerStream_loop JSON_parse reads s)"
proof (induction reads arbitrary: s)
  case Nil
  then show ?case by simp
next
  case (Cons decoded reads)
  from tracked_read [OF Cons.prems, of JSON_parse decoded] Cons.IH
  show ?case by (cases "answerStream_read JSON_parse decoded s") simp_all
qed

lemma tracked_rest: "tracked s \<Longrightarrow> tracked (answerStream_rest JSON_parse s)"
  by (simp add: answerStream_rest_def Let_def split: option.splits)

lemma tracked_init: "tracked stream_init"
  by (simp add: tracked_def stream_init_def)

lemma covered_Cons:
  assumes "covered JSON_parse (before @ decoded) reads s'"
  shows "covered JSON_parse before (decoded # reads) s'"
proof (cases "metadata s'")
  case None
  with assms show ?thesis by (simp add: covered_def)
next
  case (Some m)
  with assms obtain consumed unread atext cand where
    "reads = consumed @ unread"
    "(before @ decoded) @ concat consumed = atext @ blank_line @ cand"
    "JSON_parse cand = Some m" "subseq atext (accumulatedText s')" "buffer s' = []"
    by (auto simp: covered_def)
  then have "decoded # reads = (decoded # consumed) @ unread \<and>
      before @ concat (decoded # consumed) = atext @ blank_line @ cand \<and>
      JSON_parse cand = Some m \<and> subseq atext (accumulatedText s')"
    by simp
  with Some \<open>buffer s' = []\<close> show ?thesis
    unfolding covered_def by (simp only: option.case) blast
qed

lemma loop_coverage:
  assumes "metadata s = None" and "subseq F (accumulatedText s)"
  shows "covered JSON_parse (F @ buffer s) reads (answerStream_loop JSON_parse reads s)"
  using assms
proof (induction reads arbitrary: s F)
  case Nil
  then show ?case
    by (auto simp: covered_def)
next
  case (Cons decoded reads)
  define b where "b = buffer s @ decoded"
  show ?case
  proof (cases "indexOf b delimiter")
    case None
    define s1 where "s1 = (emitText b s)\<lparr>buffer := []\<rparr>"
    from None have step: "answerStream_read JSON_parse decoded s = Continue s1"
      by (simp add: read_flush s1_def b_def)
    have "metadata s1 = None" and "buffer s1 = []"
      and "subseq (F @ b) (accumulatedText s1)"
      using Cons.prems by (simp_all add: s1_def list_emb_append_mono)
    from Cons.IH [OF this(1) this(3), of ] this(2)
    have "covered JSON_parse ((F @ buffer s) @ decoded) reads
        (answerStream_loop JSON_parse reads s1)"
      by (simp add: b_def)
    then have "covered JSON_parse (F @ buffer s) (decoded # reads)
        (answerStream_loop JSON_parse reads s1)"
      by (rule covered_Cons)
    with step show ?thesis by simp
  next
    case (Some i)
    define s1 where "s1 = (if take i b \<noteq> [] then emitText (take i b) (s\<lparr>buffer := b\<rparr>)
                           else s\<lparr>buffer := b\<rparr>)"
    have s1: "metadata s1 = None" "buffer s1 = b"
      "accumulatedText s1 = accumulatedText s @ take i b"
      using Cons.prems(1) by (simp_all add: s1_def del: take_eq_Nil)
    from Some have found: "indexOf (buffer s @ decoded) delimiter = Some i"
      by (simp add: b_def)
    show ?thesis
    proof (cases "JSON_parse (drop (i + 2) b)")
      case None
      with read_found [OF found, of JSON_parse]
      have step: "answerStream_read JSON_parse decoded s = Continue s1"
        by (simp only: Let_def b_def [symmetric] s1_def option.case)
      from Cons.prems(2) have "subseq F (accumulatedText s1)"
        by (simp add: s1(3) list_emb_prefix)
      from Cons.IH [OF s1(1) this]
      have "covered JSON_parse ((F @ buffer s) @ decoded) reads
          (answerStream_loop JSON_parse reads s1)"
        by (simp add: s1(2) b_def)
      then have "covered JSON_parse (F @ buffer s) (decoded # reads)
          (answerStream_loop JSON_parse reads s1)"
        by (rule covered_Cons)
      with step show ?thesis by simp
    next
      case (Some m)
      define s2 where "s2 = s1\<lparr>metadata := Some m, buffer := []\<rparr>"
      from Some read_found [OF found, of JSON_parse]
      have step: "answerStream_read JSON_parse decoded s = Break s2"
        by (simp only: Let_def b_def [symmetric] s1_def s2_def option.case)
      have s2: "metadata s2 = Some m" "buffer s2 = []"
        "accumulatedText s2 = accumulatedText s @ take i b"
        by (simp_all add: s2_def s1(3))
      have fb: "(F @ buffer s) @ concat [decoded] = F @ b"
        by (simp add: b_def)
      from delimiter_split(1) [OF \<open>indexOf b delimiter = Some i\<close>]
      have "F @ b = F @ take i b @ blank_line @ drop (i + 2) b"
        by (rule arg_cong)
      with fb have sp: "(F @ buffer s) @ concat [decoded] =
          (F @ take i b) @ blank_line @ drop (i + 2) b"
        by (simp only: append_assoc)
      from Cons.prems(2) have "subseq (F @ take i b) (accumulatedText s2)"
        by (simp add: s2(3))
      with sp Some have "decoded # reads = [decoded] @ reads \<and>
          (F @ buffer s) @ concat [decoded] = (F @ take i b) @ blank_line @ drop (i + 2) b \<and>
          JSON_parse (drop (i + 2) b) = Some m \<and>
          subseq (F @ take i b) (accumulatedText s2)"
        by simp
      then have "covered JSON_parse (F @ buffer s) (decoded # reads) s2"
        unfolding covered_def by (simp only: s2 option.case) blast
      with step show ?thesis by simp
    qed
  qed
qed

lemma rest_empty: "buffer s = [] \<Longrightarrow> answerStream_rest JSON_parse s = s"
  by (simp add: answerStream_rest_def)

lemma rest_delivered_all:
  assumes cov: "covered JSON_parse [] reads s" and pend: "pending s"
  shows "delivered_all JSON_parse reads (answerStream_rest JSON_parse s)"
proof (cases "metadata s")
  case (Some m)
  with cov have "buffer s = []"
    by (simp add: covered_def)
  with cov Some show ?thesis
    by (simp add: rest_empty covered_def delivered_all_def)
next
  case None
  with cov obtain F' where F': "concat reads = F' @ buffer s" "subseq F' (accumulatedText s)"
    by (auto simp: covered_def)
  show ?thesis
  proof (cases "buffer s = []")
    case True
    with None F' show ?thesis
      by (simp add: rest_empty delivered_all_def)
  next
    case False
    with pend obtain k where idx: "indexOf (buffer s) delimiter = Some k"
      by (auto simp: pending_def)
    obtain i where "i \<le> k" and "indexOf (buffer s) blank_line = Some i"
      and "split (buffer s) blank_line =
             take i (buffer s) # split (drop (i + 2) (buffer s)) blank_line"
      and "join (split (drop (i + 2) (buffer s)) blank_line) blank_line =
             drop (i + 2) (buffer s)"
      and "drop (i + 2) (buffer s) \<noteq> []"
      and b3: "buffer s = take i (buffer s) @ blank_line @ drop (i + 2) (buffer s)"
      and rest: "answerStream_rest JSON_parse s =
           (let s1 = (if take i (buffer s) \<noteq> [] then emitText (take i (buffer s)) s else s)
            in case JSON_parse (drop (i + 2) (buffer s)) of
                 Some m \<Rightarrow> s1\<lparr>metadata := Some m\<rparr>
               | None \<Rightarrow> emitText (blank_line @ drop (i + 2) (buffer s)) s1)"
      by (rule rest_found [OF idx])
    define tp where "tp = take i (buffer s)"
    define cand where "cand = drop (i + 2) (buffer s)"
    define s1 where "s1 = (if tp \<noteq> [] then emitText tp s else s)"
    have s1: "metadata s1 = None" "accumulatedText s1 = accumulatedText s @ tp"
      using None by (simp_all add: s1_def)
    have b: "buffer s = tp @ blank_line @ cand"
      using b3 by (simp only: tp_def cand_def)
    have rest': "answerStream_rest JSON_parse s =
        (case JSON_parse cand of
           Some m \<Rightarrow> s1\<lparr>metadata := Some m\<rparr>
         | None \<Rightarrow> emitText (blank_line @ cand) s1)"
      by (simp only: rest Let_def tp_def cand_def s1_def)
    show ?thesis
    proof (cases "JSON_parse cand")
      case None
      have "subseq (F' @ buffer s) (accumulatedText s @ buffer s)"
        using F'(2) by simp
      then have "subseq (concat reads) (accumulatedText (emitText (blank_line @ cand) s1))"
        by (simp add: F'(1) s1(2) b)
      with None s1(1) show ?thesis
        by (simp add: rest' delivered_all_def)
    next
      case (Some m)
      have "reads = reads @ [] \<and> concat reads = (F' @ tp) @ blank_line @ cand \<and>
          JSON_parse cand = Some m \<and> subseq (F' @ tp) (accumulatedText s @ tp)"
        using F' Some by (simp add: b)
      then have "\<exists>consumed unread atext c.
          reads = consumed @ unread \<and> concat consumed = atext @ blank_line @ c \<and>
          JSON_parse c = Some m \<and> subseq atext (accumulatedText s @ tp)"
        by blast
      with Some show ?thesis
        by (simp add: rest' delivered_all_def s1(2))
    qed
  qed
qed

text \<open>
  The values that the generator yields are the accumulated texts passed to \<^verbatim>\<open>onChunk\<close>,
  in order, followed by the metadata that \<^verbatim>\<open>answerStream\<close> returns when it is not
  \<^verbatim>\<open>null\<close>: the metadata comes at most once and after every text. No character received
  is lost: when \<^verbatim>\<open>null\<close> is returned, the characters received are within the last
  accumulated text, in the order of arrival, and when metadata is returned, so are those
  of the answer text before the blank line and the candidate that was parsed. The last
  accumulated text can hold more than them.
\<close>

lemma text_delivered_metadata_last:
  "answerStreamGenerator_body JSON_parse reads =
     map Text (fst (answerStream_body JSON_parse reads)) @
     map Metadata (opt_list (snd (answerStream_body JSON_parse reads))) \<and>
   (case snd (answerStream_body JSON_parse reads) of
      None \<Rightarrow> subseq (concat reads) (last ([] # fst (answerStream_body JSON_parse reads)))
    | Some m \<Rightarrow>
        (\<exists>consumed unread atext cand.
           reads = consumed @ unread \<and>
           concat consumed = atext @ blank_line @ cand \<and>
           JSON_parse cand = Some m \<and>
           subseq atext (last ([] # fst (answerStream_body JSON_parse reads)))))"
proof -
  define s :: "'a stream_state" where "s = answerStream_loop JSON_parse reads stream_init"
  define f where "f = answerStream_rest JSON_parse s"
  have body: "answerStream_body JSON_parse reads = (onChunk f, metadata f)"
    by (simp add: answerStream_body_def s_def f_def Let_def)
  have "tracked f"
    unfolding f_def s_def by (intro tracked_rest tracked_loop tracked_init)
  then have acc: "accumulatedText f = last ([] # onChunk f)"
    by (simp add: tracked_def)
  have "metadata (stream_init :: 'a stream_state) = None"
    and "subseq [] (accumulatedText (stream_init :: 'a stream_state))"
    by (simp_all add: stream_init_def)
  from loop_coverage [OF this, of JSON_parse reads]
  have cov: "covered JSON_parse [] reads s"
    by (simp add: s_def stream_init_def)
  have "pending s"
    unfolding s_def by (intro pending_loop pending_init)
  with cov have d: "delivered_all JSON_parse reads f"
    unfolding f_def by (rule rest_delivered_all)
  have fs: "fst (answerStream_body JSON_parse reads) = onChunk f"
    "snd (answerStream_body JSON_parse reads) = metadata f"
    by (simp_all add: body)
  have 2: "case snd (answerStream_body JSON_parse reads) of
      None \<Rightarrow> subseq (concat reads) (last ([] # fst (answerStream_body JSON_parse reads)))
    | Some m \<Rightarrow>
        (\<exists>consumed unread atext cand.
           reads = consumed @ unread \<and>
           concat consumed = atext @ blank_line @ cand \<and>
           JSON_parse cand = Some m \<and>
           subseq atext (last ([] # fst (answerStream_body JSON_parse reads))))"
    using d unfolding delivered_all_def fs acc by assumption
  from generator_body_eq [of JSON_parse reads] 2 show ?thesis
    by (rule conjI)
qed

text \<open>
  C2. The second half of the claim holds, by the lemma above: the metadata comes at most
  once and last. The first half fails on the code. An accumulated text is the answer text
  decoded so far, but while a candidate does not parse, each read appends the text before
  the delimiter again, and so does the fallback. For the reads \<^verbatim>\<open>ab\<close>, \<^verbatim>\<open>cd\n\n{\<close> and
  \<^verbatim>\<open>x\<close> the text received is \<^verbatim>\<open>abcd\n\n{x\<close> and none of it is metadata; the callback
  gets \<^verbatim>\<open>ab\<close>, \<^verbatim>\<open>abcd\<close>, \<^verbatim>\<open>abcdcd\<close>, \<^verbatim>\<open>abcdcdcd\<close> and \<^verbatim>\<open>abcdcdcd\n\n{x\<close>, none
  of which is the text received. For the reads \<^verbatim>\<open>Hi\n\n{"brandUsed":\<close> and \<^verbatim>\<open>null}\<close> the
  answer text is \<^verbatim>\<open>Hi\<close> and the last accumulated text is \<^verbatim>\<open>HiHi\<close>.
\<close>

theorem accumulated_text_repeats_text:
  \<open>answerStream_body JSON_parse_sample [''ab'', ''cd'' @ delimiter, ''x''] =
     ([''ab'', ''abcd'', ''abcdcd'', ''abcdcdcd'', ''abcdcdcd'' @ delimiter @ ''x''], None) \<and>
   answerStreamGenerator_body JSON_parse_sample [''ab'', ''cd'' @ delimiter, ''x''] =
     [Text ''ab'', Text ''abcd'', Text ''abcdcd'', Text ''abcdcdcd'',
      Text (''abcdcdcd'' @ delimiter @ ''x'')] \<and>
   concat [''ab'', ''cd'' @ delimiter, ''x''] = ''abcd'' @ delimiter @ ''x'' \<and>
   ''abcd'' @ delimiter @ ''x'' \<notin>
     set (fst (answerStream_body JSON_parse_sample [''ab'', ''cd'' @ delimiter, ''x''])) \<and>
   answerStream_body JSON_parse_sample [''Hi'' @ blank_line @ ''{"brandUsed":'', ''null}''] =
     ([''Hi'', ''HiHi''], Some (JObject [(''brandUsed'', JNull)])) \<and>
   answerStreamGenerator_body JSON_parse_sample
       [''Hi'' @ blank_line @ ''{"brandUsed":'', ''null}''] =
     [Text ''Hi'', Text ''HiHi'', Metadata (JObject [(''brandUsed'', JNull)])]\<close>
proof -
  have 1: "answerStream_body JSON_parse_sample [''ab'', ''cd'' @ delimiter, ''x''] =
      ([''ab'', ''abcd'', ''abcdcd'', ''abcdcdcd'', ''abcdcdcd'' @ delimiter @ ''x''], None)"
    by (simp add: run_defs)
  have 2: \<open>answerStream_body JSON_parse_sample
        [''Hi'' @ blank_line @ ''{"brandUsed":'', ''null}''] =
      ([''Hi'', ''HiHi''], Some (JObject [(''brandUsed'', JNull)]))\<close>
    by (simp add: run_defs)
  have 3: "concat [''ab'', ''cd'' @ delimiter, ''x''] = ''abcd'' @ delimiter @ ''x''"
    by simp
  have 4: "''abcd'' @ delimiter @ ''x'' \<notin>
      set (fst (answerStream_body JSON_parse_sample [''ab'', ''cd'' @ delimiter, ''x'']))"
    unfolding 1 by (simp add: delimiter_def)
  have 5: "answerStreamGenerator_body JSON_parse_sample [''ab'', ''cd'' @ delimiter, ''x''] =
      [Text ''ab'', Text ''abcd'', Text ''abcdcd'', Text ''abcdcdcd'',
       Text (''abcdcdcd'' @ delimiter @ ''x'')]"
    unfolding generator_body_eq 1 by simp
  have 6: \<open>answerStreamGenerator_body JSON_parse_sample
        [''Hi'' @ blank_line @ ''{"brandUsed":'', ''null}''] =
      [Text ''Hi'', Text ''HiHi'', Metadata (JObject [(''brandUsed'', JNull)])]\<close>
    unfolding generator_body_eq 2 by simp
  from 1 5 3 4 2 6 show ?thesis
    by (intro conjI)
qed

section \<open>Chunk boundaries within the answer text\<close>

text \<open>
  When the answer text has no delimiter in it and the blank line and the whole JSON object
  come in one chunk, together with the end \<open>tail\<close> of the answer text, the cuts of the
  text before them do not matter: \<^verbatim>\<open>answerStream\<close> returns the parsed metadata and the
  last accumulated text is the answer text.
\<close>

lemma loop_front:
  assumes "buffer s = []" and "indexOf (concat front) delimiter = None"
  shows "\<exists>s'. answerStream_loop JSON_parse (front @ later) s =
              answerStream_loop JSON_parse later s' \<and>
           buffer s' = [] \<and> metadata s' = metadata s \<and>
           accumulatedText s' = accumulatedText s @ concat front \<and>
           (tracked s \<longrightarrow> tracked s')"
  using assms
proof (induction front arbitrary: s)
  case Nil
  then show ?case by (intro exI [of _ s]) simp
next
  case (Cons decoded front)
  define s1 where "s1 = (emitText (buffer s @ decoded) s)\<lparr>buffer := []\<rparr>"
  from Cons.prems(2) have "indexOf ([] @ decoded @ concat front) delimiter = None"
    by simp
  then have d: "indexOf decoded delimiter = None"
    by (rule indexOf_None_middle)
  from Cons.prems(2) have "indexOf (decoded @ concat front @ []) delimiter = None"
    by simp
  then have r: "indexOf (concat front) delimiter = None"
    by (rule indexOf_None_middle)
  from d Cons.prems(1) have step: "answerStream_read JSON_parse decoded s = Continue s1"
    by (simp add: read_flush s1_def)
  have s1: "buffer s1 = []" "metadata s1 = metadata s"
    "accumulatedText s1 = accumulatedText s @ decoded" "tracked s1"
    using Cons.prems(1) by (simp_all add: s1_def)
  from Cons.IH [OF s1(1) r] obtain s' where
    "answerStream_loop JSON_parse (front @ later) s1 = answerStream_loop JSON_parse later s'"
    "buffer s' = []" "metadata s' = metadata s1"
    "accumulatedText s' = accumulatedText s1 @ concat front" "tracked s'"
    using s1(4) by blast
  with s1 step show ?case
    by auto
qed

lemma delimiter_first_after_text:
  assumes "indexOf tail delimiter = None"
  shows "indexOf (tail @ delimiter @ js) delimiter = Some (length tail)"
proof -
  define b where "b = tail @ delimiter @ js"
  have "prefix delimiter (drop (length tail) b)"
    by (simp add: b_def)
  moreover have "length tail \<le> length b"
    by (simp add: b_def)
  ultimately obtain i where i: "i \<le> length tail" "indexOf b delimiter = Some i"
    using indexOf_le_occurrence by blast
  have "i = length tail"
  proof (rule ccontr)
    assume "i \<noteq> length tail"
    with i(1) have lt: "i < length tail" by simp
    from indexOf_prefix [OF i(2)] have p: "prefix delimiter (drop i b)" .
    then obtain v where v: "drop i b = delimiter @ v"
      by (auto simp: prefix_def)
    show False
    proof (cases "i + 3 \<le> length tail")
      case True
      then have e: "drop i b = drop i tail @ delimiter @ js"
        by (simp add: b_def)
      from p have "prefix delimiter (drop i tail @ delimiter @ js)"
        unfolding e .
      moreover from True have "length delimiter \<le> length (drop i tail)"
        by simp
      ultimately have "prefix delimiter (drop i tail)"
        by (rule prefix_append_short)
      then obtain w where "drop i tail = delimiter @ w"
        by (auto simp: prefix_def)
      then have "tail = take i tail @ delimiter @ w"
        by (metis append_take_drop_id)
      with indexOf_occurs [of "take i tail" delimiter w] assms show False
        by simp
    next
      case False
      define k where "k = i + 2 - length tail"
      from False lt have k: "i + 2 = length tail + k" "k < 2"
        by (simp_all add: k_def)
      have "drop i b ! 2 = CHR ''{''"
        by (simp add: v delimiter_def)
      moreover have "i \<le> length b"
        using lt by (simp add: b_def)
      ultimately have "b ! (i + 2) = CHR ''{''"
        by simp
      then have "b ! (length tail + k) = CHR ''{''"
        by (simp only: k(1))
      then have "(delimiter @ js) ! k = CHR ''{''"
        by (simp add: b_def)
      with k(2) show False
        by (cases k) (simp_all add: delimiter_def)
    qed
  qed
  with i(2) show ?thesis
    by (simp add: b_def)
qed

lemma boundaries_in_text:
  assumes "indexOf (concat front @ tail) delimiter = None"
    and "JSON_parse (CHR ''{'' # js) = Some m"
  shows "snd (answerStream_body JSON_parse (front @ [tail @ blank_line @ CHR ''{'' # js])) =
           Some m \<and>
         last ([] # fst (answerStream_body JSON_parse
           (front @ [tail @ blank_line @ CHR ''{'' # js]))) = concat front @ tail"
proof -
  define final where "final = tail @ blank_line @ CHR ''{'' # js"
  have fd: "final = tail @ delimiter @ js"
    by (simp add: final_def delimiter_def blank_line_def)
  from assms(1) have "indexOf (concat front @ tail @ []) delimiter = None"
    by simp
  then have nt: "indexOf tail delimiter = None"
    by (rule indexOf_None_middle)
  from assms(1) have "indexOf ([] @ concat front @ tail) delimiter = None"
    by simp
  then have nf: "indexOf (concat front) delimiter = None"
    by (rule indexOf_None_middle)
  have "buffer (stream_init :: 'a stream_state) = []"
    by (simp add: stream_init_def)
  from loop_front [OF this nf, of JSON_parse "[final]"] tracked_init
  obtain s' :: "'a stream_state" where s':
    "answerStream_loop JSON_parse (front @ [final]) stream_init =
       answerStream_loop JSON_parse [final] s'"
    "buffer s' = []" "metadata s' = None" "accumulatedText s' = concat front" "tracked s'"
    by (auto simp: stream_init_def)
  have idx: "indexOf (buffer s' @ final) delimiter = Some (length tail)"
    using delimiter_first_after_text [OF nt, of js] by (simp add: s'(2) fd)
  define s1 where "s1 = (if tail \<noteq> [] then emitText tail (s'\<lparr>buffer := final\<rparr>)
                         else s'\<lparr>buffer := final\<rparr>)"
  define s2 where "s2 = s1\<lparr>metadata := Some m, buffer := []\<rparr>"
  have tk: "take (length tail) final = tail"
    and dr: "drop (length tail + 2) final = CHR ''{'' # js"
    by (simp_all add: final_def blank_line_def)
  have "answerStream_read JSON_parse final s' = Break s2"
    using read_found [OF idx, of JSON_parse] assms(2)
    by (simp only: Let_def tk dr s1_def s2_def s'(2) append_Nil option.case)
  then have loop: "answerStream_loop JSON_parse (front @ [final]) stream_init = s2"
    by (simp add: s'(1))
  have s2: "buffer s2 = []" "metadata s2 = Some m"
    "accumulatedText s2 = concat front @ tail" "tracked s2"
    using s'(4,5) by (simp_all add: s2_def s1_def)
  then have "answerStream_body JSON_parse (front @ [final]) = (onChunk s2, Some m)"
    by (simp add: answerStream_body_def loop rest_empty)
  with s2(3,4) show ?thesis
    by (simp add: tracked_def final_def)
qed

end
